theory Spec2Isabelle
  imports Main "HOL-Library.Word" "HOL-Library.Monad_Syntax" "HOL-Library.Log_Nat"
begin

unbundle bit_operations_syntax

section \<open>The deterministic coin\<close>

text \<open>
  \<^verbatim>\<open>flipCoin(unsigned key, unsigned previousFlips)\<close>. The key is a 32-bit word. The
  counter is reduced modulo 8 before use, and 8 divides \<open>2 ^ 32\<close>, so a natural number
  stands for the \<^verbatim>\<open>unsigned\<close> counter without loss. The local \<^verbatim>\<open>char c\<close> is an 8-bit
  word; in \<^verbatim>\<open>c & (1 << previousFlips)\<close> it is promoted to a wider integer, modelled
  by the sign-extending \<open>scast\<close>.
\<close>

definition flipCoin :: "32 word \<Rightarrow> nat \<Rightarrow> bool" where
  "flipCoin key previousFlips =
     (let first8Bits = (key AND 0xFF000000) div 0x01000000;
          next8Bits = (key AND 0x00FF0000) div 0x00010000;
          andThen = (key AND 0x0000FF00) div 0x00000100;
          lastBits = key AND 0x000000FF;
          c = (ucast (first8Bits XOR next8Bits XOR andThen XOR lastBits) :: 8 word);
          previousFlips = previousFlips mod 8
      in (scast c :: 32 word) AND push_bit previousFlips 1 \<noteq> 0)"

text \<open>
  \<^verbatim>\<open>flipCoin(std::string key, unsigned previousFlips)\<close>: \<^verbatim>\<open>key[0]\<close> of the empty
  string is the terminating zero character, and the loop folds in the characters from
  index 1 on.
\<close>

definition flipCoin_string :: "string \<Rightarrow> nat \<Rightarrow> bool" where
  "flipCoin_string key previousFlips =
     (let c = (case key of [] \<Rightarrow> (0 :: 8 word)
               | x # xs \<Rightarrow> fold (\<lambda>y c. c XOR of_char y) xs (of_char x));
          previousFlips = previousFlips mod 8
      in (scast c :: 32 word) AND push_bit previousFlips 1 \<noteq> 0)"

text \<open>
  The promotion function as the specification words it: the key's four 8-bit groups
  (for text, its characters) are XORed into one byte, of which bit \<open>p mod 8\<close> is returned.
\<close>

definition byte_groups :: "32 word \<Rightarrow> 8 word list" where
  "byte_groups key = map (\<lambda>i. ucast (drop_bit (8 * i) key)) [0..<4]"

definition promote_spec :: "32 word \<Rightarrow> nat \<Rightarrow> bool" where
  "promote_spec key p = bit (fold (XOR) (byte_groups key) 0) (p mod 8)"

definition promote_spec_string :: "string \<Rightarrow> nat \<Rightarrow> bool" where
  "promote_spec_string key p = bit (fold (XOR) (map of_char key) (0 :: 8 word)) (p mod 8)"

section \<open>Nodes, the store and the engine state\<close>

text \<open>
  The container is modelled at the instance \<^verbatim>\<open>SkipList<unsigned, unsigned>\<close> of the
  tests: keys and values are 32-bit words, \<^verbatim>\<open>Key()\<close> and \<^verbatim>\<open>Value()\<close> are 0. Nodes live
  in a store, a list of node records indexed by address; a \<^verbatim>\<open>Node *\<close> is an optional
  address with \<open>None\<close> for \<^verbatim>\<open>nullptr\<close>, and \<^verbatim>\<open>new\<close> appends to the store. Reading or
  writing through a null or dangling pointer is undefined behaviour in the source and
  \<open>None\<close> in the model, as is a loop that never ends. The fields \<^verbatim>\<open>next\<close> and
  \<^verbatim>\<open>value\<close> are spelled \<open>nxt\<close> and \<open>val\<close>.

  The members \<^verbatim>\<open>head\<close> and \<^verbatim>\<open>tail\<close> of the class are declared and never used; the
  state leaves them out.

  The counters \<^verbatim>\<open>listSize\<close> (\<^verbatim>\<open>size_t\<close>), \<^verbatim>\<open>layer_num\<close> and \<^verbatim>\<open>max_layer_num\<close>
  (\<^verbatim>\<open>unsigned\<close>) are natural numbers: the number of keys is bounded by the number of
  nodes that fit in memory, and the layer count by the cap.
\<close>

datatype error = KeyNotFound | NoSuccessor | NoPredecessor

type_synonym addr = nat
type_synonym ptr = "addr option"

record node =
  key :: "32 word"
  val :: "32 word"
  nxt :: ptr
  down :: ptr
  up :: ptr

type_synonym store = "node list"

record SkipList =
  store :: store
  listSize :: nat
  top_left :: ptr
  bot_left :: ptr
  top_right :: ptr
  bot_right :: ptr
  layer_num :: nat
  max_layer_num :: nat

definition deref :: "store \<Rightarrow> ptr \<Rightarrow> node option" where
  "deref h p = (case p of None \<Rightarrow> None
                | Some a \<Rightarrow> if a < length h then Some (h ! a) else None)"

definition new_Node :: "store \<Rightarrow> 32 word \<Rightarrow> 32 word \<Rightarrow> ptr \<Rightarrow> ptr \<Rightarrow> ptr \<Rightarrow> store \<times> ptr" where
  "new_Node h k v n d u =
     (h @ [\<lparr>key = k, val = v, nxt = n, down = d, up = u\<rparr>], Some (length h))"

definition set_next :: "store \<Rightarrow> ptr \<Rightarrow> ptr \<Rightarrow> store option" where
  "set_next h p q = (case p of None \<Rightarrow> None
                     | Some a \<Rightarrow> if a < length h then Some (h[a := (h ! a)\<lparr>nxt := q\<rparr>]) else None)"

definition set_up :: "store \<Rightarrow> ptr \<Rightarrow> ptr \<Rightarrow> store option" where
  "set_up h p q = (case p of None \<Rightarrow> None
                   | Some a \<Rightarrow> if a < length h then Some (h[a := (h ! a)\<lparr>up := q\<rparr>]) else None)"

text \<open>The constructor: two layers of two sentinels each, all with the default key.\<close>

definition SkipList_new :: "SkipList option" where
  "SkipList_new = do {
     let (h, bot_leftMost) = new_Node [] 0 0 None None None;
     let (h, bot_rightMost) = new_Node h 0 0 None None None;
     h \<leftarrow> set_next h bot_leftMost bot_rightMost;
     let (h, top_leftMost) = new_Node h 0 0 None bot_leftMost None;
     let (h, top_rightMost) = new_Node h 0 0 None bot_rightMost None;
     h \<leftarrow> set_next h top_leftMost top_rightMost;
     h \<leftarrow> set_up h bot_leftMost top_leftMost;
     h \<leftarrow> set_up h bot_rightMost top_rightMost;
     Some \<lparr>store = h, listSize = 0, top_left = top_leftMost, bot_left = bot_leftMost,
           top_right = top_rightMost, bot_right = bot_rightMost,
           layer_num = 0 + 2, max_layer_num = 13\<rparr>
   }"

definition size_sl :: "SkipList \<Rightarrow> nat" where
  "size_sl s = listSize s"

definition isEmpty :: "SkipList \<Rightarrow> bool" where
  "isEmpty s = (listSize s = 0)"

definition numLayers :: "SkipList \<Rightarrow> nat" where
  "numLayers s = layer_num s"

section \<open>The rightward scans\<close>

text \<open>
  The inner loop \<^verbatim>\<open>while(currentNode->next->next != nullptr && currentNode->next->key < k)\<close>
  of \<^verbatim>\<open>previousKey\<close> and \<^verbatim>\<open>insert\<close>; it returns the node it stops at.
\<close>

partial_function (option) scan_lt :: "store \<Rightarrow> 32 word \<Rightarrow> ptr \<Rightarrow> ptr option" where
  "scan_lt h k currentNode = do {
     c \<leftarrow> deref h currentNode;
     n \<leftarrow> deref h (nxt c);
     if nxt n \<noteq> None \<and> key n < k then scan_lt h k (nxt c) else Some currentNode
   }"

declare scan_lt.simps [code]

text \<open>
  The inner loop with \<^verbatim>\<open><=\<close> of \<^verbatim>\<open>height\<close>, \<^verbatim>\<open>nextKey\<close>, \<^verbatim>\<open>find\<close>,
  \<^verbatim>\<open>isSmallestKey\<close> and \<^verbatim>\<open>isLargestKey\<close>. Its body leaves the loop as soon as
  \<^verbatim>\<open>currentNode->next->key == k\<close>; the result says whether it did, and where
  \<^verbatim>\<open>currentNode\<close> stands.
\<close>

partial_function (option) scan_le :: "store \<Rightarrow> 32 word \<Rightarrow> ptr \<Rightarrow> (bool \<times> ptr) option" where
  "scan_le h k currentNode = do {
     c \<leftarrow> deref h currentNode;
     n \<leftarrow> deref h (nxt c);
     if nxt n \<noteq> None \<and> key n \<le> k
     then (if key n = k then Some (True, currentNode) else scan_le h k (nxt c))
     else Some (False, currentNode)
   }"

declare scan_le.simps [code]

section \<open>Queries\<close>

text \<open>
  Every outer loop \<^verbatim>\<open>for(int i = layer_num - 1; i >= 0; i--)\<close> is a recursion on the
  number of layers left: the equation for \<open>Suc i\<close> is the iteration with index \<open>i\<close>.
\<close>

fun height_layers :: "store \<Rightarrow> 32 word \<Rightarrow> nat \<Rightarrow> ptr \<Rightarrow> nat option" where
  "height_layers h k 0 currentNode = Some 0"
| "height_layers h k (Suc i) currentNode = do {
     (found, currentNode) \<leftarrow> scan_le h k currentNode;
     if found then Some (i + 1)
     else if i \<noteq> 0 then do { c \<leftarrow> deref h currentNode; height_layers h k i (down c) }
     else height_layers h k i currentNode
   }"

definition height :: "SkipList \<Rightarrow> 32 word \<Rightarrow> (error + nat) option" where
  "height s k = do {
     height \<leftarrow> height_layers (store s) k (layer_num s) (top_left s);
     if height = 0 then Some (Inl KeyNotFound) else Some (Inr height)
   }"

text \<open>The loop \<^verbatim>\<open>for(int j = i - 1; j >= 0; j--) currentNode = currentNode->down\<close>.\<close>

fun descend :: "store \<Rightarrow> nat \<Rightarrow> ptr \<Rightarrow> ptr option" where
  "descend h 0 currentNode = Some currentNode"
| "descend h (Suc j) currentNode = do { c \<leftarrow> deref h currentNode; descend h j (down c) }"

text \<open>
  \<^verbatim>\<open>nextKey\<close>: the layer loop either returns a key from inside (\<open>Inl\<close>) or ends with
  \<^verbatim>\<open>currentNode\<close> on the base layer (\<open>Inr\<close>). The unused local
  \<^verbatim>\<open>currentLayer_left\<close> is dereferenced on the way down, so it is carried along.
\<close>

fun nextKey_layers :: "store \<Rightarrow> 32 word \<Rightarrow> nat \<Rightarrow> ptr \<Rightarrow> ptr \<Rightarrow> (32 word + ptr) option" where
  "nextKey_layers h k 0 currentNode currentLayer_left = Some (Inr currentNode)"
| "nextKey_layers h k (Suc i) currentNode currentLayer_left = do {
     (found, currentNode) \<leftarrow> scan_le h k currentNode;
     if found then do {
       c \<leftarrow> deref h currentNode;
       currentNode \<leftarrow> descend h i (nxt c);
       c \<leftarrow> deref h currentNode;
       n \<leftarrow> deref h (nxt c);
       Some (Inl (key n)) }
     else if i \<noteq> 0 then do {
       c \<leftarrow> deref h currentNode;
       l \<leftarrow> deref h currentLayer_left;
       nextKey_layers h k i (down c) (down l) }
     else nextKey_layers h k i currentNode currentLayer_left
   }"

definition nextKey :: "SkipList \<Rightarrow> 32 word \<Rightarrow> (error + 32 word) option" where
  "nextKey s k = do {
     r \<leftarrow> nextKey_layers (store s) k (layer_num s) (top_left s) (top_left s);
     case r of
       Inl k' \<Rightarrow> Some (Inr k')
     | Inr currentNode \<Rightarrow> do {
         c \<leftarrow> deref (store s) currentNode;
         if key c \<noteq> k then Some (Inl KeyNotFound)
         else do {
           n \<leftarrow> deref (store s) (nxt c);
           if nxt n = None then Some (Inl NoSuccessor) else Some (Inr (key n)) } }
   }"

fun previousKey_layers :: "store \<Rightarrow> 32 word \<Rightarrow> nat \<Rightarrow> ptr \<Rightarrow> ptr option" where
  "previousKey_layers h k 0 currentNode = Some currentNode"
| "previousKey_layers h k (Suc i) currentNode = do {
     currentNode \<leftarrow> scan_lt h k currentNode;
     if i \<noteq> 0 then do { c \<leftarrow> deref h currentNode; previousKey_layers h k i (down c) }
     else previousKey_layers h k i currentNode
   }"

text \<open>
  In \<^verbatim>\<open>currentNode->next->key != k || currentNode->next == nullptr\<close> the left operand
  is evaluated first, so \<^verbatim>\<open>currentNode->next\<close> is dereferenced before it is compared
  with null.
\<close>

definition previousKey :: "SkipList \<Rightarrow> 32 word \<Rightarrow> (error + 32 word) option" where
  "previousKey s k = do {
     currentNode \<leftarrow> previousKey_layers (store s) k (layer_num s) (top_left s);
     c \<leftarrow> deref (store s) currentNode;
     n \<leftarrow> deref (store s) (nxt c);
     if key n \<noteq> k \<or> nxt c = None then Some (Inl KeyNotFound)
     else if currentNode = top_left s \<and> down c = None then Some (Inl NoPredecessor)
     else Some (Inr (key c))
   }"

text \<open>
  The operations \<^verbatim>\<open>size\<close>, \<^verbatim>\<open>find\<close> and \<^verbatim>\<open>insert\<close> carry the suffix \<open>_sl\<close>,
  their names being taken by the library.
\<close>

text \<open>\<^verbatim>\<open>find\<close>, both overloads (their bodies are the same): \<open>None\<close> inside is the throw.\<close>

fun find_layers :: "store \<Rightarrow> 32 word \<Rightarrow> nat \<Rightarrow> ptr \<Rightarrow> ptr \<Rightarrow> 32 word option option" where
  "find_layers h k 0 currentNode currentLayer_left = Some None"
| "find_layers h k (Suc i) currentNode currentLayer_left = do {
     (found, currentNode) \<leftarrow> scan_le h k currentNode;
     if found then do {
       c \<leftarrow> deref h currentNode;
       n \<leftarrow> deref h (nxt c);
       Some (Some (val n)) }
     else if i \<noteq> 0 then do {
       c \<leftarrow> deref h currentNode;
       l \<leftarrow> deref h currentLayer_left;
       find_layers h k i (down c) (down l) }
     else find_layers h k i currentNode currentLayer_left
   }"

definition find_sl :: "SkipList \<Rightarrow> 32 word \<Rightarrow> (error + 32 word) option" where
  "find_sl s k = do {
     r \<leftarrow> find_layers (store s) k (layer_num s) (top_left s) (top_left s);
     case r of None \<Rightarrow> Some (Inl KeyNotFound) | Some v \<Rightarrow> Some (Inr v)
   }"

text \<open>\<^verbatim>\<open>allKeysInOrder\<close>: down the left spine, then along the base layer.\<close>

partial_function (option) go_down :: "store \<Rightarrow> ptr \<Rightarrow> ptr option" where
  "go_down h currentNode = do {
     c \<leftarrow> deref h currentNode;
     if down c \<noteq> None then go_down h (down c) else Some currentNode
   }"

declare go_down.simps [code]

partial_function (option) collect_keys :: "store \<Rightarrow> ptr \<Rightarrow> 32 word list \<Rightarrow> 32 word list option" where
  "collect_keys h currentNode keys = do {
     c \<leftarrow> deref h currentNode;
     if nxt c \<noteq> None then collect_keys h (nxt c) (keys @ [key c]) else Some keys
   }"

declare collect_keys.simps [code]

definition allKeysInOrder :: "SkipList \<Rightarrow> 32 word list option" where
  "allKeysInOrder s = do {
     currentNode \<leftarrow> go_down (store s) (top_left s);
     c \<leftarrow> deref (store s) currentNode;
     collect_keys (store s) (nxt c) []
   }"

text \<open>\<^verbatim>\<open>isSmallestKey\<close> and \<^verbatim>\<open>isLargestKey\<close>: the layer loop sets \<^verbatim>\<open>keyExists\<close>.\<close>

fun exists_layers :: "store \<Rightarrow> 32 word \<Rightarrow> nat \<Rightarrow> ptr \<Rightarrow> (bool \<times> ptr) option" where
  "exists_layers h k 0 currentNode = Some (False, currentNode)"
| "exists_layers h k (Suc i) currentNode = do {
     (keyExists, currentNode) \<leftarrow> scan_le h k currentNode;
     if keyExists then Some (True, currentNode)
     else if i \<noteq> 0 then do { c \<leftarrow> deref h currentNode; exists_layers h k i (down c) }
     else exists_layers h k i currentNode
   }"

definition isSmallestKey :: "SkipList \<Rightarrow> 32 word \<Rightarrow> (error + bool) option" where
  "isSmallestKey s k = do {
     (keyExists, currentNode) \<leftarrow> exists_layers (store s) k (layer_num s) (top_left s);
     if \<not> keyExists then Some (Inl KeyNotFound)
     else do {
       b \<leftarrow> deref (store s) (bot_left s);
       c \<leftarrow> deref (store s) (nxt b);
       Some (Inr (key c = k)) }
   }"

partial_function (option) go_right :: "store \<Rightarrow> ptr \<Rightarrow> ptr option" where
  "go_right h currentNode = do {
     c \<leftarrow> deref h currentNode;
     n \<leftarrow> deref h (nxt c);
     if nxt n \<noteq> None then go_right h (nxt c) else Some currentNode
   }"

declare go_right.simps [code]

definition isLargestKey :: "SkipList \<Rightarrow> 32 word \<Rightarrow> (error + bool) option" where
  "isLargestKey s k = do {
     (keyExists, currentNode) \<leftarrow> exists_layers (store s) k (layer_num s) (top_left s);
     if \<not> keyExists then Some (Inl KeyNotFound)
     else do {
       currentNode \<leftarrow> go_down (store s) currentNode;
       currentNode \<leftarrow> go_right (store s) currentNode;
       c \<leftarrow> deref (store s) currentNode;
       Some (Inr (key c = k)) }
   }"

section \<open>Insertion\<close>

text \<open>
  \<^verbatim>\<open>std::ceil(std::log2(listSize))\<close> on whole numbers: the least \<open>e\<close> with
  \<open>n \<le> 2 ^ e\<close> (the floating-point rounding of the source is not modelled).
\<close>

fun ceil_log2 :: "nat \<Rightarrow> nat" where
  "ceil_log2 n = (if n \<le> 1 then 0 else Suc (ceil_log2 ((n + 1) div 2)))"

declare ceil_log2.simps [simp del]

fun insert_layers :: "store \<Rightarrow> 32 word \<Rightarrow> nat \<Rightarrow> ptr \<Rightarrow> ptr \<Rightarrow> ptr option" where
  "insert_layers h k 0 currentNode currentLayer_left = Some currentNode"
| "insert_layers h k (Suc i) currentNode currentLayer_left = do {
     currentNode \<leftarrow> scan_lt h k currentNode;
     if i \<noteq> 0 then do {
       c \<leftarrow> deref h currentNode;
       l \<leftarrow> deref h currentLayer_left;
       insert_layers h k i (down c) (down l) }
     else insert_layers h k i currentNode currentLayer_left
   }"

text \<open>
  The body of the promotion loop when \<^verbatim>\<open>(layer_num - 1) == previousFlip\<close>: a new pair
  of sentinels above the old top.
\<close>

definition new_top_layer :: "SkipList \<Rightarrow> ptr \<Rightarrow> ptr \<Rightarrow> SkipList option" where
  "new_top_layer s current_up_layer_left current_up_layer_right = do {
     let (h, new_top_left) = new_Node (store s) 0 0 None current_up_layer_left None;
     let (h, new_top_right) = new_Node h 0 0 None current_up_layer_right None;
     h \<leftarrow> set_next h new_top_left new_top_right;
     h \<leftarrow> set_up h (top_left s) new_top_left;
     h \<leftarrow> set_up h (top_right s) new_top_right;
     Some (s\<lparr>store := h, top_left := new_top_left, top_right := new_top_right,
             layer_num := layer_num s + 1\<rparr>)
   }"

text \<open>
  The promotion loop \<^verbatim>\<open>while(flipCoin(k, previousFlip) && layer_num < max_layer_num)\<close>,
  with its locals as arguments.
\<close>

partial_function (option) promote :: "32 word \<Rightarrow> 32 word \<Rightarrow> SkipList \<Rightarrow> nat \<Rightarrow> ptr \<Rightarrow> ptr \<Rightarrow> ptr \<Rightarrow> SkipList option" where
  "promote k v s previousFlip current_up_layer_left current_up_layer_right below_element =
     (if flipCoin k previousFlip \<and> layer_num s < max_layer_num s then do {
        let previousFlip = previousFlip + 1;
        current_Node \<leftarrow> scan_lt (store s) k current_up_layer_left;
        c \<leftarrow> deref (store s) current_Node;
        let (h, up_element) = new_Node (store s) k v (nxt c) below_element None;
        h \<leftarrow> set_next h current_Node up_element;
        h \<leftarrow> set_up h below_element up_element;
        s \<leftarrow> (if layer_num s - 1 = previousFlip
              then new_top_layer (s\<lparr>store := h\<rparr>) current_up_layer_left current_up_layer_right
              else Some (s\<lparr>store := h\<rparr>));
        l \<leftarrow> deref (store s) current_up_layer_left;
        r \<leftarrow> deref (store s) current_up_layer_right;
        promote k v s previousFlip (up l) (up r) up_element }
      else Some s)"

declare promote.simps [code]

definition insert_sl :: "SkipList \<Rightarrow> 32 word \<Rightarrow> 32 word \<Rightarrow> (bool \<times> SkipList) option" where
  "insert_sl s k v = do {
     currentNode \<leftarrow> insert_layers (store s) k (layer_num s) (top_left s) (top_left s);
     c \<leftarrow> deref (store s) currentNode;
     n \<leftarrow> deref (store s) (nxt c);
     if nxt n \<noteq> None \<and> key n = k then Some (False, s)
     else do {
       let (h, new_element) = new_Node (store s) k v (nxt c) None None;
       h \<leftarrow> set_next h currentNode new_element;
       let s = s\<lparr>store := h, listSize := listSize s + 1\<rparr>;
       bl \<leftarrow> deref (store s) (bot_left s);
       br \<leftarrow> deref (store s) (bot_right s);
       let s = (if listSize s > 16
                then s\<lparr>max_layer_num := 3 * ceil_log2 (listSize s) + 1\<rparr> else s);
       s \<leftarrow> promote k v s 0 (up bl) (up br) new_element;
       Some (True, s) }
   }"

text \<open>Running a sequence of \<^verbatim>\<open>insert\<close> calls, with the flags they return.\<close>

fun inserts :: "SkipList \<Rightarrow> (32 word \<times> 32 word) list \<Rightarrow> (bool list \<times> SkipList) option" where
  "inserts s [] = Some ([], s)"
| "inserts s ((k, v) # kvs) = do {
     (b, s) \<leftarrow> insert_sl s k v;
     (bs, s) \<leftarrow> inserts s kvs;
     Some (b # bs, s)
   }"

section \<open>What the claims speak of\<close>

text \<open>
  The number of promotions of a key, as step 5 of the specified insertion words it:
  starting at promotion count \<open>p\<close>, promote while the promotion function is true at the
  count and the current layer count is below the cap; a promotion that reaches the
  topmost layer (index \<open>layers - 1\<close>) first adds a layer. The result is the count at
  which the promotions stop.
\<close>

function climb :: "32 word \<Rightarrow> nat \<Rightarrow> nat \<Rightarrow> nat \<Rightarrow> nat" where
  "climb k cap layers p =
     (if flipCoin k p \<and> layers < cap
      then climb k cap (if layers \<le> p + 2 then layers + 1 else layers) (p + 1)
      else p)"
  by pat_completeness auto

termination
  by (relation "measure (\<lambda>(k, cap, layers, p). 2 * (cap - layers) + (layers - (p + 2)))") auto

declare climb.simps [simp del]

text \<open>
  The topmost layer holds no key: \<^verbatim>\<open>top_left->next\<close> is \<^verbatim>\<open>top_right\<close>, whose
  \<^verbatim>\<open>next\<close> is null; and the two top sentinels are linked vertically with the pair
  below them (\<^verbatim>\<open>down\<close> from the top, \<^verbatim>\<open>up\<close> back to it).
\<close>

definition top_layer_empty :: "SkipList \<Rightarrow> bool" where
  "top_layer_empty s =
     (case (deref (store s) (top_left s), deref (store s) (top_right s)) of
        (Some l, Some r) \<Rightarrow>
          nxt l = top_right s \<and> nxt r = None
          \<and> (case (deref (store s) (down l), deref (store s) (down r)) of
                (Some dl, Some dr) \<Rightarrow> up dl = top_left s \<and> up dr = top_right s
              | _ \<Rightarrow> False)
      | _ \<Rightarrow> False)"

section \<open>The abstraction: layers of addresses over the store\<close>

text \<open>
  A layer is described by the address of its left sentinel, the addresses of its key
  nodes from left to right, and the address of its right sentinel. A list of layers,
  base layer first, describes a store when every layer is a chain along \<open>nxt\<close> with
  strictly increasing keys, no address occurs twice, each key node of a layer points
  \<open>down\<close> to a key node of the layer below with the same key and value, and the sentinels
  of neighbouring layers are linked by \<open>down\<close> and \<open>up\<close>.
\<close>

record layer =
  lsent :: addr
  inner :: "addr list"
  rsent :: addr

definition nodes :: "layer \<Rightarrow> addr list" where
  "nodes l = lsent l # inner l @ [rsent l]"

definition abs_layer :: "store \<Rightarrow> layer \<Rightarrow> (32 word \<times> 32 word) list" where
  "abs_layer h l = map (\<lambda>a. (key (h ! a), val (h ! a))) (inner l)"

definition keyl :: "store \<Rightarrow> layer \<Rightarrow> 32 word list" where
  "keyl h l = map (\<lambda>a. key (h ! a)) (inner l)"

text \<open>The number of keys of a layer below \<open>k\<close>: where a rightward scan for \<open>k\<close> stops.\<close>

definition pos :: "store \<Rightarrow> layer \<Rightarrow> 32 word \<Rightarrow> nat" where
  "pos h l k = length (takeWhile (\<lambda>x. x < k) (keyl h l))"

definition layer_ok :: "store \<Rightarrow> layer \<Rightarrow> bool" where
  "layer_ok h l \<longleftrightarrow>
     (\<forall>a\<in>set (nodes l). a < length h)
     \<and> (\<forall>j\<le>length (inner l). nxt (h ! ((lsent l # inner l) ! j)) = Some ((inner l @ [rsent l]) ! j))
     \<and> nxt (h ! rsent l) = None
     \<and> sorted_wrt (<) (keyl h l)"

definition linked :: "store \<Rightarrow> layer \<Rightarrow> layer \<Rightarrow> bool" where
  "linked h u l \<longleftrightarrow>
     down (h ! lsent u) = Some (lsent l) \<and> down (h ! rsent u) = Some (rsent l)
     \<and> up (h ! lsent l) = Some (lsent u) \<and> up (h ! rsent l) = Some (rsent u)
     \<and> (\<forall>a\<in>set (inner u). \<exists>b\<in>set (inner l).
           down (h ! a) = Some b \<and> key (h ! b) = key (h ! a) \<and> val (h ! b) = val (h ! a))"

definition wf0 :: "store \<Rightarrow> layer list \<Rightarrow> bool" where
  "wf0 h ls \<longleftrightarrow>
     ls \<noteq> [] \<and> distinct (concat (map nodes ls))
     \<and> (\<forall>l\<in>set ls. layer_ok h l)
     \<and> (\<forall>i. Suc i < length ls \<longrightarrow> linked h (ls ! Suc i) (ls ! i))
     \<and> (\<forall>a\<in>set (nodes (hd ls)). down (h ! a) = None)"

text \<open>
  The engine state on top of it: at least two layers, the topmost without keys, and the
  four corner pointers and the two counters as the layers give them.
\<close>

definition wf_state :: "SkipList \<Rightarrow> layer list \<Rightarrow> bool" where
  "wf_state s ls \<longleftrightarrow>
     wf0 (store s) ls \<and> 2 \<le> length ls \<and> inner (last ls) = []
     \<and> layer_num s = length ls
     \<and> top_left s = Some (lsent (last ls)) \<and> top_right s = Some (rsent (last ls))
     \<and> bot_left s = Some (lsent (hd ls)) \<and> bot_right s = Some (rsent (hd ls))
     \<and> listSize s = length (inner (hd ls))"

text \<open>The node at position \<open>j\<close> of layer \<open>i\<close>, the left sentinel being position 0.\<close>

abbreviation node_at :: "layer list \<Rightarrow> nat \<Rightarrow> nat \<Rightarrow> addr" where
  "node_at ls i j \<equiv> (lsent (ls ! i) # inner (ls ! i)) ! j"

text \<open>
  What a state stands for: its layers as lists of key-value pairs, base layer first.
\<close>

definition rel :: "SkipList \<Rightarrow> (32 word \<times> 32 word) list list \<Rightarrow> bool" where
  "rel s A \<longleftrightarrow> (\<exists>ls. wf_state s ls \<and> map (abs_layer (store s)) ls = A)"

definition good :: "(32 word \<times> 32 word) list list \<Rightarrow> bool" where
  "good A \<longleftrightarrow>
     2 \<le> length A \<and> last A = []
     \<and> (\<forall>i<length A. sorted_wrt (<) (map fst (A ! i)))
     \<and> (\<forall>i j. i \<le> j \<longrightarrow> j < length A \<longrightarrow> set (A ! j) \<subseteq> set (A ! i))"

definition akeys :: "(32 word \<times> 32 word) list list \<Rightarrow> 32 word list list" where
  "akeys A = map (map fst) A"

text \<open>
  The layers seen from the top down, as the layer loops of \<^const>\<open>height\<close> and
  \<^const>\<open>find_sl\<close> visit them: the first layer that holds the key decides.
\<close>

fun hgt :: "32 word list list \<Rightarrow> 32 word \<Rightarrow> nat \<Rightarrow> nat" where
  "hgt K k 0 = 0"
| "hgt K k (Suc i) = (if k \<in> set (K ! i) then Suc i else hgt K k i)"

fun lookup_top :: "(32 word \<times> 32 word) list list \<Rightarrow> 32 word \<Rightarrow> nat \<Rightarrow> 32 word option" where
  "lookup_top A k 0 = None"
| "lookup_top A k (Suc i) = (case map_of (A ! i) k of Some v \<Rightarrow> Some v | None \<Rightarrow> lookup_top A k i)"

text \<open>
  Insertion on the abstract side: \<open>ins\<close> puts a pair into one sorted layer, and
  \<open>tower\<close> puts it into the layers 0 to \<open>n\<close>, with one empty layer above the tower
  if there was none.
\<close>

definition ins :: "32 word \<Rightarrow> 32 word \<Rightarrow> (32 word \<times> 32 word) list \<Rightarrow> (32 word \<times> 32 word) list" where
  "ins k v xs = takeWhile (\<lambda>x. fst x < k) xs @ (k, v) # dropWhile (\<lambda>x. fst x < k) xs"

definition nth_or :: "'a list list \<Rightarrow> nat \<Rightarrow> 'a list" where
  "nth_or A i = (if i < length A then A ! i else [])"

definition tower ::
  "32 word \<Rightarrow> 32 word \<Rightarrow> nat \<Rightarrow> (32 word \<times> 32 word) list list \<Rightarrow> (32 word \<times> 32 word) list list" where
  "tower k v n A =
     map (\<lambda>i. if i \<le> n then ins k v (nth_or A i) else nth_or A i) [0..<max (length A) (n + 2)]"

text \<open>The same from layer \<open>p + 1\<close> on, and one iteration of the promotion loop.\<close>

definition grow ::
  "32 word \<Rightarrow> 32 word \<Rightarrow> nat \<Rightarrow> nat \<Rightarrow> (32 word \<times> 32 word) list list \<Rightarrow> (32 word \<times> 32 word) list list" where
  "grow k v p n A =
     map (\<lambda>i. if p < i \<and> i \<le> n then ins k v (nth_or A i) else nth_or A i)
       [0..<max (length A) (n + 2)]"

definition step_abs ::
  "32 word \<Rightarrow> 32 word \<Rightarrow> nat \<Rightarrow> (32 word \<times> 32 word) list list \<Rightarrow> (32 word \<times> 32 word) list list" where
  "step_abs k v p A = A[Suc p := ins k v (A ! Suc p)] @ (if length A \<le> p + 2 then [[]] else [])"

text \<open>The cap that \<^const>\<open>insert_sl\<close> sets before its promotion loop.\<close>

definition cap_after :: "SkipList \<Rightarrow> nat" where
  "cap_after s = (if listSize s + 1 > 16 then 3 * ceil_log2 (listSize s + 1) + 1 else max_layer_num s)"

text \<open>What later inserts keep of a key that is present: its value and its height.\<close>

definition keeps :: "(32 word \<times> 32 word) list list \<Rightarrow> (32 word \<times> 32 word) list list \<Rightarrow> bool" where
  "keeps A A' \<longleftrightarrow>
     (\<forall>k. k \<in> fst ` set (A ! 0) \<longrightarrow>
        map_of (A' ! 0) k = map_of (A ! 0) k
        \<and> hgt (akeys A') k (length A') = hgt (akeys A) k (length A))"

text \<open>
  The store after the writes of one splice (a new node linked in after node \<open>c\<close>), of
  one assignment to an \<open>up\<close> field, and of the creation of a new top layer; and the
  layer with the new address at position \<open>p\<close>.
\<close>

definition splice_store :: "store \<Rightarrow> addr \<Rightarrow> node \<Rightarrow> store" where
  "splice_store h c n = (h @ [n])[c := ((h @ [n]) ! c)\<lparr>nxt := Some (length h)\<rparr>]"

definition splice_layer :: "nat \<Rightarrow> addr \<Rightarrow> layer \<Rightarrow> layer" where
  "splice_layer p a l = l\<lparr>inner := take p (inner l) @ a # drop p (inner l)\<rparr>"

definition up_store :: "store \<Rightarrow> addr \<Rightarrow> ptr \<Rightarrow> store" where
  "up_store h b q = h[b := (h ! b)\<lparr>up := q\<rparr>]"

definition top_store :: "store \<Rightarrow> addr \<Rightarrow> addr \<Rightarrow> ptr \<Rightarrow> ptr \<Rightarrow> store" where
  "top_store h tL tR cul cur =
     up_store (up_store
       (h @ [\<lparr>key = 0, val = 0, nxt = Some (Suc (length h)), down = cul, up = None\<rparr>,
             \<lparr>key = 0, val = 0, nxt = None, down = cur, up = None\<rparr>])
       tL (Some (length h))) tR (Some (Suc (length h)))"

text \<open>
  The invariant of the promotion loop at promotion count \<open>p\<close>: the new key stands in
  the layers 0 to \<open>p\<close>, its node \<open>b\<close> of layer \<open>p\<close> is the element below, and no layer
  above holds the key.
\<close>

definition tower_inv :: "32 word \<Rightarrow> 32 word \<Rightarrow> SkipList \<Rightarrow> layer list \<Rightarrow> nat \<Rightarrow> addr \<Rightarrow> bool" where
  "tower_inv k v s ls p b \<longleftrightarrow>
     wf_state s ls \<and> Suc p < length ls \<and> b \<in> set (inner (ls ! p))
     \<and> key (store s ! b) = k \<and> val (store s ! b) = v
     \<and> (\<forall>j. p < j \<longrightarrow> j < length ls \<longrightarrow> k \<notin> set (keyl (store s) (ls ! j)))"

text \<open>The layers that were there keep their sentinels.\<close>

definition same_sents :: "layer list \<Rightarrow> layer list \<Rightarrow> bool" where
  "same_sents ls ls' \<longleftrightarrow>
     length ls \<le> length ls'
     \<and> (\<forall>i<length ls. lsent (ls' ! i) = lsent (ls ! i) \<and> rsent (ls' ! i) = rsent (ls ! i))"

section \<open>The promotion function against its specification\<close>

lemma bit_test:
  "n < 8 \<Longrightarrow> ((scast (c :: 8 word) :: 32 word) AND push_bit n 1 \<noteq> 0) = bit c n"
  unfolding push_bit_of_1 and_exp_eq_0_iff_not_bit bit_word_scast_iff by auto

lemma mask_consts:
  "(0xFF000000 :: 32 word) = push_bit 24 (mask 8)"
  "(0x00FF0000 :: 32 word) = push_bit 16 (mask 8)"
  "(0x0000FF00 :: 32 word) = push_bit 8 (mask 8)"
  "(0xFF :: 32 word) = mask 8"
  by (simp_all add: mask_eq_exp_minus_1)

lemma div_is_drop:
  "(w :: 32 word) div 0x01000000 = drop_bit 24 w"
  "(w :: 32 word) div 0x00010000 = drop_bit 16 w"
  "(w :: 32 word) div 0x00000100 = drop_bit 8 w"
  by (simp_all add: drop_bit_eq_div)

lemma upt4: "[0..<4] = [0, 1, 2, 3]"
  by code_simp

lemma xor_of_groups:
  "(ucast ((w AND 0xFF000000) div 0x01000000 XOR (w AND 0x00FF0000) div 0x00010000
      XOR (w AND 0x0000FF00) div 0x00000100 XOR (w AND 0x000000FF)) :: 8 word)
   = fold (XOR) (byte_groups w) 0" for w :: "32 word"
  apply (simp only: div_is_drop mask_consts)
  apply (rule bit_eqI)
  apply (simp add: byte_groups_def upt4)
  apply (simp add: bit_simps)
  done

lemma fold_xor_chars:
  "fold (\<lambda>y c. c XOR of_char y) xs (a :: 8 word) = fold (XOR) (map of_char xs) a"
  by (induction xs arbitrary: a) (simp_all add: ac_simps)

lemma flipCoin_refines: "flipCoin w p = promote_spec w p"
proof -
  have "p mod 8 < 8" by simp
  then show ?thesis
    unfolding flipCoin_def promote_spec_def Let_def xor_of_groups by (rule bit_test)
qed

lemma flipCoin_string_refines: "flipCoin_string str p = promote_spec_string str p"
proof -
  have b: "p mod 8 < 8" by simp
  show ?thesis
    unfolding flipCoin_string_def promote_spec_string_def Let_def
    by (cases str)
      (simp_all only: list.case list.map fold_simps fold_xor_chars bit_test[OF b]
        comp_apply xor.left_neutral xor.right_neutral xor.commute)
qed

lemma flipCoin_examples: "\<not> flipCoin 0 0 \<and> flipCoin 5 0 \<and> \<not> flipCoin 5 1"
  by (simp add: flipCoin_def)

text \<open>
  Claim C3. The promotion function equals the reference definition: for every 32-bit key
  and every promotion count it XORs the key's 8-bit groups into one byte and returns bit
  \<open>p mod 8\<close> of it; \<open>promote(0,0)\<close> is false, \<open>promote(5,0)\<close> is true and
  \<open>promote(5,1)\<close> is false; the string variant XORs every character of the key and
  applies the same bit test.
\<close>

theorem C3_promotion_function:
  "flipCoin w p = promote_spec w p
   \<and> flipCoin 0 0 = False \<and> flipCoin 5 0 = True \<and> flipCoin 5 1 = False
   \<and> flipCoin_string str p = promote_spec_string str p"
  using flipCoin_refines[of w p] flipCoin_string_refines[of str p] flipCoin_examples
  by simp

section \<open>Lemmas on well-formed stores\<close>

lemma deref_Some [simp]: "a < length h \<Longrightarrow> deref h (Some a) = Some (h ! a)"
  by (simp add: deref_def)

lemma deref_None [simp]: "deref h None = None"
  by (simp add: deref_def)

lemma length_keyl [simp]: "length (keyl h l) = length (inner l)"
  by (simp add: keyl_def)

lemma keyl_nth: "j < length (inner l) \<Longrightarrow> keyl h l ! j = key (h ! (inner l ! j))"
  by (simp add: keyl_def)

lemma keyl_abs: "keyl h l = map fst (abs_layer h l)"
  by (simp add: keyl_def abs_layer_def)

lemma pos_le: "pos h l k \<le> length (inner l)"
  unfolding pos_def using length_takeWhile_le[of "\<lambda>x. x < k" "keyl h l"] by simp

lemma takeWhile_less: "j < length (takeWhile P xs) \<Longrightarrow> P (xs ! j)"
  by (metis nth_mem set_takeWhileD takeWhile_nth)

lemma pos_less: "j < pos h l k \<Longrightarrow> key (h ! (inner l ! j)) < k"
  using takeWhile_less[of j "\<lambda>x. x < k" "keyl h l"] pos_le[of h l k]
  by (simp add: pos_def keyl_nth)

lemma pos_stop: "pos h l k < length (inner l) \<Longrightarrow> \<not> key (h ! (inner l ! pos h l k)) < k"
  using nth_length_takeWhile[of "\<lambda>x. x < k" "keyl h l"]
  by (simp add: pos_def keyl_nth[symmetric])

text \<open>In a strictly sorted list the keys below k are exactly those before the position of k.\<close>

lemma sorted_less_pos:
  assumes "sorted_wrt (<) (ks :: 32 word list)" "j < length ks" "ks ! j < k"
  shows "j < length (takeWhile (\<lambda>x. x < k) ks)"
proof (rule ccontr)
  let ?p = "length (takeWhile (\<lambda>x. x < k) ks)"
  assume "\<not> j < ?p"
  then have pj: "?p \<le> j" by simp
  then have "?p < length ks" using assms(2) by simp
  then have "\<not> ks ! ?p < k" by (rule nth_length_takeWhile)
  moreover have "ks ! ?p \<le> ks ! j"
  proof (cases "?p = j")
    case False
    then have "?p < j" using pj by simp
    then have "ks ! ?p < ks ! j" using assms(1,2) by (simp add: sorted_wrt_iff_nth_less)
    then show ?thesis by simp
  qed simp
  ultimately show False using assms(3) by simp
qed

lemma sorted_mem_pos:
  assumes "sorted_wrt (<) (ks :: 32 word list)"
  shows "k \<in> set ks \<longleftrightarrow>
         (length (takeWhile (\<lambda>x. x < k) ks) < length ks \<and> ks ! length (takeWhile (\<lambda>x. x < k) ks) = k)"
    (is "_ \<longleftrightarrow> (?p < _ \<and> _)")
proof
  assume "k \<in> set ks"
  then obtain m where m: "m < length ks" "ks ! m = k" by (auto simp: in_set_conv_nth)
  have "\<not> m < ?p" using takeWhile_less[of m "\<lambda>x. x < k" ks] m by auto
  then have pm: "?p \<le> m" by simp
  then have pl: "?p < length ks" using m by simp
  then have "\<not> ks ! ?p < k" by (rule nth_length_takeWhile)
  moreover have "ks ! ?p \<le> ks ! m"
  proof (cases "?p = m")
    case False
    then have "?p < m" using pm by simp
    then have "ks ! ?p < ks ! m" using assms m(1) by (simp add: sorted_wrt_iff_nth_less)
    then show ?thesis by simp
  qed simp
  ultimately show "?p < length ks \<and> ks ! ?p = k" using pl m by simp
next
  assume "?p < length ks \<and> ks ! ?p = k"
  then show "k \<in> set ks" by (auto simp: in_set_conv_nth)
qed

lemma layer_ok_valid: "layer_ok h l \<Longrightarrow> j \<le> length (inner l) \<Longrightarrow> (lsent l # inner l) ! j < length h"
  by (cases j) (auto simp: layer_ok_def nodes_def)

lemma layer_ok_rsent: "layer_ok h l \<Longrightarrow> rsent l < length h"
  by (simp add: layer_ok_def nodes_def)

lemma layer_ok_inner: "layer_ok h l \<Longrightarrow> j < length (inner l) \<Longrightarrow> inner l ! j < length h"
  by (simp add: layer_ok_def nodes_def)

lemma layer_ok_next:
  "layer_ok h l \<Longrightarrow> j \<le> length (inner l) \<Longrightarrow>
   nxt (h ! ((lsent l # inner l) ! j)) = Some ((inner l @ [rsent l]) ! j)"
  by (simp add: layer_ok_def)

lemma layer_ok_last: "layer_ok h l \<Longrightarrow> nxt (h ! rsent l) = None"
  by (simp add: layer_ok_def)

lemma layer_ok_inner_next:
  "layer_ok h l \<Longrightarrow> j < length (inner l) \<Longrightarrow> nxt (h ! (inner l ! j)) \<noteq> None"
  using layer_ok_next[of h l "Suc j"] by simp

lemma scan_lt_layer:
  assumes ok: "layer_ok h l"
  shows "j \<le> pos h l k \<Longrightarrow>
         scan_lt h k (Some ((lsent l # inner l) ! j)) = Some (Some ((lsent l # inner l) ! pos h l k))"
proof (induction "pos h l k - j" arbitrary: j)
  case 0
  then have j: "j = pos h l k" by simp
  have jl: "j \<le> length (inner l)" using pos_le[of h l k] j by simp
  show ?case
  proof (cases "j < length (inner l)")
    case True
    then have "\<not> key (h ! (inner l ! j)) < k" using pos_stop[of h l k] j by simp
    then show ?thesis
      using jl j True
      by (subst scan_lt.simps)
         (simp add: layer_ok_valid[OF ok] layer_ok_next[OF ok] layer_ok_inner[OF ok] nth_append)
  next
    case False
    then have "j = length (inner l)" using jl by simp
    then show ?thesis
      using jl j
      by (subst scan_lt.simps)
         (simp add: layer_ok_valid[OF ok] layer_ok_next[OF ok] layer_ok_rsent[OF ok] layer_ok_last[OF ok])
  qed
next
  case (Suc d)
  then have j: "j < pos h l k" by simp
  have jl: "j < length (inner l)" using pos_le[of h l k] j by simp
  have lt: "key (h ! (inner l ! j)) < k" using pos_less[OF j] .
  have "scan_lt h k (Some ((lsent l # inner l) ! Suc j)) = Some (Some ((lsent l # inner l) ! pos h l k))"
    using Suc.hyps(1)[of "Suc j"] Suc.hyps(2) j by simp
  then show ?case
    using jl lt layer_ok_inner_next[OF ok jl] layer_ok_valid[OF ok, of j] layer_ok_next[OF ok, of j]
    by (subst scan_lt.simps) (simp add: layer_ok_inner[OF ok] nth_append)
qed

lemma scan_le_layer:
  assumes ok: "layer_ok h l"
  shows "j \<le> pos h l k \<Longrightarrow>
         scan_le h k (Some ((lsent l # inner l) ! j))
           = Some (k \<in> set (keyl h l), Some ((lsent l # inner l) ! pos h l k))"
proof (induction "pos h l k - j" arbitrary: j)
  case 0
  then have j: "j = pos h l k" by simp
  have jl: "j \<le> length (inner l)" using pos_le[of h l k] j by simp
  have srt: "sorted_wrt (<) (keyl h l)" using ok by (simp add: layer_ok_def)
  note mem = sorted_mem_pos[OF srt, of k, folded pos_def, simplified]
  show ?case
  proof (cases "j < length (inner l)")
    case True
    then have ge: "\<not> key (h ! (inner l ! j)) < k" using pos_stop[of h l k] j by simp
    have "k \<in> set (keyl h l) \<longleftrightarrow> key (h ! (inner l ! j)) = k"
      using mem True j by (simp add: keyl_nth)
    then show ?thesis
      using jl j True ge layer_ok_inner_next[OF ok True]
      by (subst scan_le.simps)
         (auto simp add: layer_ok_valid[OF ok] layer_ok_next[OF ok] layer_ok_inner[OF ok] nth_append)
  next
    case False
    then have jj: "j = length (inner l)" using jl by simp
    then have "k \<notin> set (keyl h l)" using mem j by simp
    then have "scan_le h k (Some ((lsent l # inner l) ! j))
                 = Some (k \<in> set (keyl h l), Some ((lsent l # inner l) ! j))"
      using jl jj
      by (subst scan_le.simps)
         (simp add: layer_ok_valid[OF ok] layer_ok_next[OF ok] layer_ok_rsent[OF ok] layer_ok_last[OF ok])
    then show ?thesis unfolding j .
  qed
next
  case (Suc d)
  then have j: "j < pos h l k" by simp
  have jl: "j < length (inner l)" using pos_le[of h l k] j by simp
  have lt: "key (h ! (inner l ! j)) < k" using pos_less[OF j] .
  have "scan_le h k (Some ((lsent l # inner l) ! Suc j))
          = Some (k \<in> set (keyl h l), Some ((lsent l # inner l) ! pos h l k))"
    using Suc.hyps(1)[of "Suc j"] Suc.hyps(2) j by simp
  then show ?case
    using jl lt layer_ok_inner_next[OF ok jl] layer_ok_valid[OF ok, of j] layer_ok_next[OF ok, of j]
    by (subst scan_le.simps) (auto simp add: layer_ok_inner[OF ok] nth_append)
qed

section \<open>Descending\<close>

lemma wf0_layer_ok: "wf0 h ls \<Longrightarrow> i < length ls \<Longrightarrow> layer_ok h (ls ! i)"
  by (simp add: wf0_def)

lemma wf0_linked: "wf0 h ls \<Longrightarrow> Suc i < length ls \<Longrightarrow> linked h (ls ! Suc i) (ls ! i)"
  by (simp add: wf0_def)

lemma down_pos:
  assumes wf: "wf0 h ls" and i: "Suc i < length ls"
  shows "\<exists>j\<le>pos h (ls ! i) k.
           down (h ! ((lsent (ls ! Suc i) # inner (ls ! Suc i)) ! pos h (ls ! Suc i) k))
             = Some ((lsent (ls ! i) # inner (ls ! i)) ! j)"
proof (cases "pos h (ls ! Suc i) k")
  case 0
  then show ?thesis using wf0_linked[OF wf i] by (auto simp: linked_def intro!: exI[of _ 0])
next
  case (Suc p)
  let ?u = "ls ! Suc i" and ?l = "ls ! i"
  have pu: "p < length (inner ?u)" using pos_le[of h ?u k] Suc by simp
  then have "inner ?u ! p \<in> set (inner ?u)" by simp
  then obtain b where b: "b \<in> set (inner ?l)" "down (h ! (inner ?u ! p)) = Some b"
      "key (h ! b) = key (h ! (inner ?u ! p))"
    using wf0_linked[OF wf i] unfolding linked_def by blast
  from b(1) obtain j where j: "j < length (inner ?l)" "inner ?l ! j = b"
    by (auto simp: in_set_conv_nth)
  have "key (h ! (inner ?u ! p)) < k" using pos_less[of p h ?u k] Suc by simp
  then have "keyl h ?l ! j < k" using b(3) j by (simp add: keyl_nth)
  moreover have "sorted_wrt (<) (keyl h ?l)"
    using wf0_layer_ok[OF wf, of i] i by (simp add: layer_ok_def)
  ultimately have "j < pos h ?l k"
    unfolding pos_def using j(1) by (intro sorted_less_pos) simp_all
  then show ?thesis using b(2) j(2) Suc by (intro exI[of _ "Suc j"]) simp
qed

lemma down_lsent:
  "wf0 h ls \<Longrightarrow> Suc i < length ls \<Longrightarrow> down (h ! lsent (ls ! Suc i)) = Some (lsent (ls ! i))"
  using wf0_linked[of h ls i] by (simp add: linked_def)

lemma lsent_valid: "wf0 h ls \<Longrightarrow> i < length ls \<Longrightarrow> lsent (ls ! i) < length h"
  using wf0_layer_ok[of h ls i] by (simp add: layer_ok_def nodes_def)

lemma pos_valid:
  "wf0 h ls \<Longrightarrow> i < length ls \<Longrightarrow> j \<le> length (inner (ls ! i)) \<Longrightarrow>
   (lsent (ls ! i) # inner (ls ! i)) ! j < length h"
  using wf0_layer_ok[of h ls i] layer_ok_valid by blast

lemma insert_layers_wf:
  assumes wf: "wf0 h ls"
  shows "n < length ls \<Longrightarrow> j \<le> pos h (ls ! n) k \<Longrightarrow>
         insert_layers h k (Suc n) (Some (node_at ls n j)) (Some (lsent (ls ! n)))
           = Some (Some (node_at ls 0 (pos h (ls ! 0) k)))"
proof (induction n arbitrary: j)
  case 0
  then show ?case by (simp add: scan_lt_layer[OF wf0_layer_ok[OF wf]])
next
  case (Suc n)
  obtain j' where j': "j' \<le> pos h (ls ! n) k"
      "down (h ! node_at ls (Suc n) (pos h (ls ! Suc n) k)) = Some (node_at ls n j')"
    using down_pos[OF wf Suc.prems(1)] by blast
  have ih: "insert_layers h k (Suc n) (Some (node_at ls n j')) (Some (lsent (ls ! n)))
          = Some (Some (node_at ls 0 (pos h (ls ! 0) k)))"
    using Suc.IH[OF _ j'(1)] Suc.prems(1) by simp
  have "insert_layers h k (Suc (Suc n)) (Some (node_at ls (Suc n) j)) (Some (lsent (ls ! Suc n)))
        = insert_layers h k (Suc n) (Some (node_at ls n j')) (Some (lsent (ls ! n)))"
    using Suc.prems j'(2) pos_valid[OF wf Suc.prems(1) pos_le] lsent_valid[OF wf Suc.prems(1)]
      down_lsent[OF wf Suc.prems(1)]
    by (subst insert_layers.simps) (simp add: scan_lt_layer[OF wf0_layer_ok[OF wf]] del: insert_layers.simps)
  then show ?case using ih by simp
qed

lemma go_down_lsent:
  assumes wf: "wf0 h ls"
  shows "n < length ls \<Longrightarrow> go_down h (Some (lsent (ls ! n))) = Some (Some (lsent (ls ! 0)))"
proof (induction n)
  case 0
  have "down (h ! lsent (ls ! 0)) = None"
    using wf by (auto simp: wf0_def nodes_def hd_conv_nth)
  then show ?case
    using lsent_valid[OF wf 0] by (subst go_down.simps) simp
next
  case (Suc n)
  then show ?case
    using lsent_valid[OF wf Suc.prems] down_lsent[OF wf Suc.prems]
    by (subst go_down.simps) simp
qed

lemma collect_keys_layer:
  assumes ok: "layer_ok h l"
  shows "j \<le> length (inner l) \<Longrightarrow>
         collect_keys h (Some ((inner l @ [rsent l]) ! j)) acc = Some (acc @ drop j (keyl h l))"
proof (induction "length (inner l) - j" arbitrary: j acc)
  case 0
  then have "j = length (inner l)" by simp
  then show ?case
    using layer_ok_rsent[OF ok] layer_ok_last[OF ok] by (subst collect_keys.simps) simp
next
  case (Suc d)
  then have jl: "j < length (inner l)" by simp
  have nx: "nxt (h ! (inner l ! j)) = Some ((inner l @ [rsent l]) ! Suc j)"
    using layer_ok_next[OF ok, of "Suc j"] jl by simp
  have ih: "collect_keys h (Some ((inner l @ [rsent l]) ! Suc j)) (acc @ [key (h ! (inner l ! j))])
          = Some ((acc @ [key (h ! (inner l ! j))]) @ drop (Suc j) (keyl h l))"
    using Suc.hyps(1)[of "Suc j"] Suc.hyps(2) jl by simp
  have "drop j (keyl h l) = key (h ! (inner l ! j)) # drop (Suc j) (keyl h l)"
    using jl by (simp add: Cons_nth_drop_Suc[symmetric] keyl_nth)
  then show ?case
    using jl nx ih layer_ok_inner[OF ok jl]
    by (subst collect_keys.simps) (simp add: nth_append)
qed

lemma allKeysInOrder_wf:
  assumes "wf_state s ls"
  shows "allKeysInOrder s = Some (keyl (store s) (ls ! 0))"
proof -
  have wf: "wf0 (store s) ls" and len: "0 < length ls" "length ls - 1 < length ls"
    and tl: "top_left s = Some (lsent (ls ! (length ls - 1)))"
    using assms by (auto simp: wf_state_def wf0_def last_conv_nth)
  have ok: "layer_ok (store s) (ls ! 0)" using wf0_layer_ok[OF wf len(1)] .
  have "nxt (store s ! lsent (ls ! 0)) = Some ((inner (ls ! 0) @ [rsent (ls ! 0)]) ! 0)"
    using layer_ok_next[OF ok, of 0] by simp
  then show ?thesis
    using go_down_lsent[OF wf len(2)] lsent_valid[OF wf len(1)] collect_keys_layer[OF ok, of 0 "[]"]
    by (simp add: allKeysInOrder_def tl)
qed

lemma height_layers_wf:
  assumes wf: "wf0 h ls"
  shows "n < length ls \<Longrightarrow> j \<le> pos h (ls ! n) k \<Longrightarrow>
         height_layers h k (Suc n) (Some (node_at ls n j)) = Some (hgt (map (keyl h) ls) k (Suc n))"
proof (induction n arbitrary: j)
  case 0
  then show ?case by (simp add: scan_le_layer[OF wf0_layer_ok[OF wf]])
next
  case (Suc n)
  obtain j' where j': "j' \<le> pos h (ls ! n) k"
      "down (h ! node_at ls (Suc n) (pos h (ls ! Suc n) k)) = Some (node_at ls n j')"
    using down_pos[OF wf Suc.prems(1)] by blast
  have ih: "height_layers h k (Suc n) (Some (node_at ls n j')) = Some (hgt (map (keyl h) ls) k (Suc n))"
    using Suc.IH[OF _ j'(1)] Suc.prems(1) by simp
  have "height_layers h k (Suc (Suc n)) (Some (node_at ls (Suc n) j))
        = (if k \<in> set (keyl h (ls ! Suc n)) then Some (Suc (Suc n))
           else height_layers h k (Suc n) (Some (node_at ls n j')))"
    using Suc.prems j'(2) pos_valid[OF wf Suc.prems(1) pos_le]
    by (subst height_layers.simps) (simp add: scan_le_layer[OF wf0_layer_ok[OF wf]] del: height_layers.simps)
  then show ?case using ih Suc.prems(1) by simp
qed

lemma map_of_abs_layer:
  assumes ok: "layer_ok h l" and p: "p < length (inner l)" and k: "key (h ! (inner l ! p)) = k"
  shows "map_of (abs_layer h l) k = Some (val (h ! (inner l ! p)))"
proof -
  have "distinct (map fst (abs_layer h l))"
    using ok strict_sorted_iff[of "keyl h l"] by (simp add: layer_ok_def keyl_abs)
  moreover have "(k, val (h ! (inner l ! p))) \<in> set (abs_layer h l)"
    using p k by (force simp: abs_layer_def in_set_conv_nth)
  ultimately show ?thesis by simp
qed

lemma map_of_abs_layer_None: "k \<notin> set (keyl h l) \<Longrightarrow> map_of (abs_layer h l) k = None"
  by (simp add: keyl_abs map_of_eq_None_iff)

lemma find_layers_wf:
  assumes wf: "wf0 h ls"
  shows "n < length ls \<Longrightarrow> j \<le> pos h (ls ! n) k \<Longrightarrow>
         find_layers h k (Suc n) (Some (node_at ls n j)) (Some (lsent (ls ! n)))
           = Some (lookup_top (map (abs_layer h) ls) k (Suc n))"
proof (induction n arbitrary: j)
  case 0
  let ?l = "ls ! 0"
  have ok: "layer_ok h ?l" using wf0_layer_ok[OF wf 0(1)] .
  have srt: "sorted_wrt (<) (keyl h ?l)" using ok by (simp add: layer_ok_def)
  note mem = sorted_mem_pos[OF srt, of k, folded pos_def, simplified]
  show ?case
  proof (cases "k \<in> set (keyl h ?l)")
    case True
    then have p: "pos h ?l k < length (inner ?l)" "key (h ! (inner ?l ! pos h ?l k)) = k"
      using mem by (auto simp: keyl_nth)
    have "nxt (h ! node_at ls 0 (pos h ?l k)) = Some (inner ?l ! pos h ?l k)"
      using layer_ok_next[OF ok, of "pos h ?l k"] p(1) by (simp add: nth_append)
    then show ?thesis
      using True 0 map_of_abs_layer[OF ok p] layer_ok_valid[OF ok pos_le] layer_ok_inner[OF ok p(1)]
      by (simp add: scan_le_layer[OF ok])
  next
    case False
    then show ?thesis
      using 0 map_of_abs_layer_None[OF False] by (simp add: scan_le_layer[OF ok])
  qed
next
  case (Suc n)
  let ?l = "ls ! Suc n"
  have ok: "layer_ok h ?l" using wf0_layer_ok[OF wf Suc.prems(1)] .
  have srt: "sorted_wrt (<) (keyl h ?l)" using ok by (simp add: layer_ok_def)
  note mem = sorted_mem_pos[OF srt, of k, folded pos_def, simplified]
  obtain j' where j': "j' \<le> pos h (ls ! n) k"
      "down (h ! node_at ls (Suc n) (pos h ?l k)) = Some (node_at ls n j')"
    using down_pos[OF wf Suc.prems(1)] by blast
  have ih: "find_layers h k (Suc n) (Some (node_at ls n j')) (Some (lsent (ls ! n)))
          = Some (lookup_top (map (abs_layer h) ls) k (Suc n))"
    using Suc.IH[OF _ j'(1)] Suc.prems(1) by simp
  show ?case
  proof (cases "k \<in> set (keyl h ?l)")
    case True
    then have p: "pos h ?l k < length (inner ?l)" "key (h ! (inner ?l ! pos h ?l k)) = k"
      using mem by (auto simp: keyl_nth)
    have "nxt (h ! node_at ls (Suc n) (pos h ?l k)) = Some (inner ?l ! pos h ?l k)"
      using layer_ok_next[OF ok, of "pos h ?l k"] p(1) by (simp add: nth_append)
    then show ?thesis
      using True Suc.prems map_of_abs_layer[OF ok p] layer_ok_valid[OF ok pos_le]
        layer_ok_inner[OF ok p(1)]
      by (subst find_layers.simps) (simp add: scan_le_layer[OF ok] del: find_layers.simps)
  next
    case False
    have "find_layers h k (Suc (Suc n)) (Some (node_at ls (Suc n) j)) (Some (lsent ?l))
          = find_layers h k (Suc n) (Some (node_at ls n j')) (Some (lsent (ls ! n)))"
      using False Suc.prems j'(2) layer_ok_valid[OF ok pos_le] lsent_valid[OF wf Suc.prems(1)]
        down_lsent[OF wf Suc.prems(1)]
      by (subst find_layers.simps) (simp add: scan_le_layer[OF ok] del: find_layers.simps)
    then show ?thesis
      using ih Suc.prems(1) map_of_abs_layer_None[OF False] by simp
  qed
qed

lemma length_splice_store [simp]: "length (splice_store h c n) = Suc (length h)"
  by (simp add: splice_store_def)

lemma splice_store_old:
  "x < length h \<Longrightarrow> key (splice_store h c n ! x) = key (h ! x)"
  "x < length h \<Longrightarrow> val (splice_store h c n ! x) = val (h ! x)"
  "x < length h \<Longrightarrow> down (splice_store h c n ! x) = down (h ! x)"
  "x < length h \<Longrightarrow> up (splice_store h c n ! x) = up (h ! x)"
  "x < length h \<Longrightarrow> nxt (splice_store h c n ! x) = (if x = c then Some (length h) else nxt (h ! x))"
  by (simp_all add: splice_store_def nth_list_update nth_append)

lemma splice_store_new: "c < length h \<Longrightarrow> splice_store h c n ! length h = n"
  by (simp add: splice_store_def)

lemma nth_splice_Cons:
  "p \<le> length xs \<Longrightarrow> j \<le> Suc (length xs) \<Longrightarrow>
   (L # take p xs @ a # drop p xs) ! j
     = (if j \<le> p then (L # xs) ! j else if j = Suc p then a else (L # xs) ! (j - 1))"
  by (auto simp: nth_append nth_Cons' min_def numeral_2_eq_2)

lemma nth_splice_snoc:
  "p \<le> length xs \<Longrightarrow> j \<le> Suc (length xs) \<Longrightarrow>
   ((take p xs @ a # drop p xs) @ [R]) ! j
     = (if j < p then (xs @ [R]) ! j else if j = p then a else (xs @ [R]) ! (j - 1))"
  by (auto simp: nth_append nth_Cons' min_def)

lemma sorted_ins_keys:
  "sorted_wrt (<) (ks :: 32 word list) \<Longrightarrow> k \<notin> set ks \<Longrightarrow>
   sorted_wrt (<) (takeWhile (\<lambda>x. x < k) ks @ k # dropWhile (\<lambda>x. x < k) ks)"
  by (induction ks) (auto simp: not_less order_le_less dest: set_takeWhileD set_dropWhileD)

lemma take_pos_keyl: "take (pos h l k) (keyl h l) = takeWhile (\<lambda>x. x < k) (keyl h l)"
  unfolding pos_def by (rule takeWhile_eq_take[symmetric])

lemma drop_pos_keyl: "drop (pos h l k) (keyl h l) = dropWhile (\<lambda>x. x < k) (keyl h l)"
  unfolding pos_def by (rule dropWhile_eq_drop[symmetric])

lemma nodes_splice: "set (nodes (splice_layer p a l)) = insert a (set (nodes l))"
proof -
  have "set (take p (inner l)) \<union> set (drop p (inner l)) = set (inner l)"
    by (metis append_take_drop_id set_append)
  then show ?thesis by (auto simp: nodes_def splice_layer_def)
qed

lemma inner_splice: "set (inner (splice_layer p a l)) = insert a (set (inner l))"
proof -
  have "set (take p (inner l)) \<union> set (drop p (inner l)) = set (inner l)"
    by (metis append_take_drop_id set_append)
  then show ?thesis by (auto simp: splice_layer_def)
qed

lemma sents_splice [simp]:
  "lsent (splice_layer p a l) = lsent l" "rsent (splice_layer p a l) = rsent l"
  "length (inner (splice_layer p a l)) = Suc (length (inner l))"
  by (simp_all add: splice_layer_def min_def)

lemma keyl_splice:
  assumes ok: "layer_ok h l" and c: "c < length h" and n: "key n = k"
  shows "keyl (splice_store h c n) (splice_layer (pos h l k) (length h) l)
         = takeWhile (\<lambda>x. x < k) (keyl h l) @ k # dropWhile (\<lambda>x. x < k) (keyl h l)"
proof -
  have "\<forall>a\<in>set (inner l). a < length h" using ok by (simp add: layer_ok_def nodes_def)
  then have old: "map (\<lambda>a. key (splice_store h c n ! a)) xs = map (\<lambda>a. key (h ! a)) xs"
    if "set xs \<subseteq> set (inner l)" for xs
    using that by (auto simp: splice_store_old)
  have "keyl (splice_store h c n) (splice_layer (pos h l k) (length h) l)
        = take (pos h l k) (keyl h l) @ k # drop (pos h l k) (keyl h l)"
    using c n
    by (simp add: keyl_def splice_layer_def old set_take_subset set_drop_subset splice_store_new
        take_map drop_map)
  then show ?thesis by (simp add: take_pos_keyl drop_pos_keyl)
qed

lemma abs_splice:
  assumes ok: "layer_ok h l" and c: "c < length h" and n: "key n = k" "val n = v"
  shows "abs_layer (splice_store h c n) (splice_layer (pos h l k) (length h) l)
         = ins k v (abs_layer h l)"
proof -
  have "\<forall>a\<in>set (inner l). a < length h" using ok by (simp add: layer_ok_def nodes_def)
  then have old: "map (\<lambda>a. (key (splice_store h c n ! a), val (splice_store h c n ! a))) xs
                  = map (\<lambda>a. (key (h ! a), val (h ! a))) xs"
    if "set xs \<subseteq> set (inner l)" for xs
    using that by (auto simp: splice_store_old)
  have p: "pos h l k = length (takeWhile (\<lambda>x. fst x < k) (abs_layer h l))"
    by (simp add: pos_def keyl_abs takeWhile_map comp_def)
  have "abs_layer (splice_store h c n) (splice_layer (pos h l k) (length h) l)
        = take (pos h l k) (abs_layer h l) @ (k, v) # drop (pos h l k) (abs_layer h l)"
    using c n
    by (simp add: abs_layer_def splice_layer_def old set_take_subset set_drop_subset splice_store_new
        take_map drop_map)
  then show ?thesis
    unfolding p ins_def
    by (simp add: takeWhile_eq_take[symmetric] dropWhile_eq_drop[symmetric])
qed

lemma splice_layer_ok:
  assumes ok: "layer_ok h l" and dist: "distinct (nodes l)"
    and k: "k \<notin> set (keyl h l)"
    and n: "key n = k" "nxt n = nxt (h ! ((lsent l # inner l) ! pos h l k))"
  shows "layer_ok (splice_store h ((lsent l # inner l) ! pos h l k) n)
           (splice_layer (pos h l k) (length h) l)"
proof -
  let ?p = "pos h l k" let ?c = "(lsent l # inner l) ! pos h l k"
  let ?h' = "splice_store h ?c n" and ?l' = "splice_layer ?p (length h) l"
  have pl: "?p \<le> length (inner l)" by (rule pos_le)
  have c: "?c < length h" using layer_ok_valid[OF ok pl] .
  have valid: "\<forall>a\<in>set (nodes l). a < length h" using ok by (simp add: layer_ok_def)
  have d: "distinct (lsent l # inner l)" "rsent l \<notin> set (lsent l # inner l)"
    using dist by (auto simp: nodes_def)
  have 1: "\<forall>a\<in>set (nodes ?l'). a < length ?h'"
    using valid by (auto simp: nodes_splice)
  have 2: "nxt (?h' ! ((lsent ?l' # inner ?l') ! j)) = Some ((inner ?l' @ [rsent ?l']) ! j)"
    if j: "j \<le> length (inner ?l')" for j
  proof -
    have jl: "j \<le> Suc (length (inner l))" using j by simp
    have A: "(lsent ?l' # inner ?l') ! j
        = (if j \<le> ?p then (lsent l # inner l) ! j
           else if j = Suc ?p then length h else (lsent l # inner l) ! (j - 1))"
      unfolding splice_layer_def using nth_splice_Cons[OF pl jl] by simp
    have B: "(inner ?l' @ [rsent ?l']) ! j
        = (if j < ?p then (inner l @ [rsent l]) ! j
           else if j = ?p then length h else (inner l @ [rsent l]) ! (j - 1))"
      unfolding splice_layer_def using nth_splice_snoc[OF pl jl] by simp
    consider "j < ?p" | "j = ?p" | "j = Suc ?p" | "Suc ?p < j" by linarith
    then show ?thesis
    proof cases
      case 1
      then have "(lsent l # inner l) ! j \<noteq> ?c"
        using nth_eq_iff_index_eq[OF d(1), of j ?p] pl by simp
      moreover have "(lsent l # inner l) ! j < length h"
        using layer_ok_valid[OF ok, of j] 1 pl by simp
      moreover have "nxt (h ! ((lsent l # inner l) ! j)) = Some ((inner l @ [rsent l]) ! j)"
        using layer_ok_next[OF ok, of j] 1 pl by simp
      ultimately show ?thesis
        unfolding A B using 1 by (simp add: splice_store_old)
    next
      case 2
      then show ?thesis
        unfolding A B using c by (simp add: splice_store_old)
    next
      case 3
      then show ?thesis
        unfolding A B using c n(2) layer_ok_next[OF ok pl] by (simp add: splice_store_new)
    next
      case 4
      then have "(lsent l # inner l) ! (j - 1) \<noteq> ?c"
        using nth_eq_iff_index_eq[OF d(1), of "j - 1" ?p] pl jl by simp
      moreover have "(lsent l # inner l) ! (j - 1) < length h"
        using layer_ok_valid[OF ok, of "j - 1"] 4 jl by simp
      moreover have "nxt (h ! ((lsent l # inner l) ! (j - 1))) = Some ((inner l @ [rsent l]) ! (j - 1))"
        using layer_ok_next[OF ok, of "j - 1"] 4 jl by simp
      ultimately show ?thesis
        unfolding A B using 4 by (simp add: splice_store_old)
    qed
  qed
  have "rsent l \<noteq> ?c" using d(2) pl by (metis length_Cons less_Suc_eq_le nth_mem)
  then have 3: "nxt (?h' ! rsent ?l') = None"
    using layer_ok_rsent[OF ok] layer_ok_last[OF ok] by (simp add: splice_store_old)
  have 4: "sorted_wrt (<) (keyl ?h' ?l')"
    using keyl_splice[OF ok c n(1)] sorted_ins_keys[OF _ k] ok by (simp add: layer_ok_def)
  show ?thesis unfolding layer_ok_def using 1 2 3 4 by blast
qed

lemma nodes_nonempty [simp]: "nodes l \<noteq> []"
  by (simp add: nodes_def)

lemma layers_disjoint:
  assumes "distinct (concat (map nodes ls))" "i < length ls" "j < length ls" "i \<noteq> j"
  shows "set (nodes (ls ! i)) \<inter> set (nodes (ls ! j)) = {}"
proof -
  have d: "distinct (map nodes ls)"
    and dj: "\<And>ys zs. ys \<in> set (map nodes ls) \<Longrightarrow> zs \<in> set (map nodes ls) \<Longrightarrow> ys \<noteq> zs
             \<Longrightarrow> set ys \<inter> set zs = {}"
  proof -
    have "removeAll [] (map nodes ls) = map nodes ls" by (rule removeAll_id) (auto simp: nodes_def)
    then show "distinct (map nodes ls)" using assms(1) unfolding distinct_concat_iff by simp
    show "\<And>ys zs. ys \<in> set (map nodes ls) \<Longrightarrow> zs \<in> set (map nodes ls) \<Longrightarrow> ys \<noteq> zs
             \<Longrightarrow> set ys \<inter> set zs = {}"
      using assms(1) unfolding distinct_concat_iff by blast
  qed
  have "map nodes ls ! i \<noteq> map nodes ls ! j"
    using d assms(2-4) by (simp add: nth_eq_iff_index_eq del: nth_map)
  then show ?thesis using dj[of "nodes (ls ! i)" "nodes (ls ! j)"] assms(2,3) by simp
qed

lemma layer_distinct:
  "distinct (concat (map nodes ls)) \<Longrightarrow> i < length ls \<Longrightarrow> distinct (nodes (ls ! i))"
  unfolding distinct_concat_iff by simp

lemma distinct_nodes_splice:
  assumes "distinct (nodes l)" "a \<notin> set (nodes l)"
  shows "distinct (nodes (splice_layer p a l))"
proof -
  have "set (take p (inner l)) \<inter> set (drop p (inner l)) = {}"
    using set_take_disj_set_drop_if_distinct[of "inner l" p p] assms(1) by (simp add: nodes_def)
  then show ?thesis
    using assms unfolding nodes_def splice_layer_def
    by (auto dest: in_set_takeD in_set_dropD)
qed

lemma distinct_concat_update:
  assumes d: "distinct (concat (map nodes ls))" and i: "i < length ls"
    and a: "a \<notin> set (concat (map nodes ls))"
  shows "distinct (concat (map nodes (ls[i := splice_layer p a (ls ! i)])))"
proof -
  let ?x = "splice_layer p a (ls ! i)"
  have ls: "ls = take i ls @ ls ! i # drop (Suc i) ls" using i by (simp add: id_take_nth_drop)
  have ls': "ls[i := ?x] = take i ls @ ?x # drop (Suc i) ls" using i by (simp add: upd_conv_take_nth_drop)
  have d': "distinct (concat (map nodes (take i ls)) @ nodes (ls ! i) @ concat (map nodes (drop (Suc i) ls)))"
    using d by (subst (asm) ls) simp
  have a': "a \<notin> set (concat (map nodes (take i ls)))" "a \<notin> set (nodes (ls ! i))"
      "a \<notin> set (concat (map nodes (drop (Suc i) ls)))"
    using a by (subst (asm) ls, simp)+
  have "distinct (nodes ?x)" using distinct_nodes_splice[OF _ a'(2)] d' by simp
  then have "distinct (concat (map nodes (take i ls)) @ nodes ?x @ concat (map nodes (drop (Suc i) ls)))"
    using d' a' by (simp add: nodes_splice del: set_concat)
  then show ?thesis by (subst ls') simp
qed

lemma layer_ok_frame:
  assumes "layer_ok h l" "c \<notin> set (nodes l)"
  shows "layer_ok (splice_store h c n) l"
proof -
  have v: "\<forall>a\<in>set (nodes l). a < length h" using assms(1) by (simp add: layer_ok_def)
  have f: "nxt (splice_store h c n ! a) = nxt (h ! a)" "key (splice_store h c n ! a) = key (h ! a)"
    if "a \<in> set (nodes l)" for a
    using that v assms(2) by (auto simp: splice_store_old)
  have j: "(lsent l # inner l) ! j \<in> set (nodes l)" if "j \<le> length (inner l)" for j
    using that by (cases j) (auto simp: nodes_def)
  have "keyl (splice_store h c n) l = keyl h l"
    unfolding keyl_def by (rule map_cong) (auto simp: f nodes_def)
  then show ?thesis
    using assms(1) v unfolding layer_ok_def
    by (auto simp: f j) (simp add: f nodes_def)
qed

lemma linked_frame:
  assumes "linked h u l" "\<forall>a\<in>set (nodes u) \<union> set (nodes l). a < length h"
  shows "linked (splice_store h c n) u l"
  using assms unfolding linked_def nodes_def
  by (simp add: splice_store_old)

lemma linked_lower_mono:
  "linked h u l \<Longrightarrow> lsent l' = lsent l \<Longrightarrow> rsent l' = rsent l \<Longrightarrow> set (inner l) \<subseteq> set (inner l')
   \<Longrightarrow> linked h u l'"
  unfolding linked_def by (simp add: subset_iff) blast

lemma linked_upper_splice:
  assumes "linked h u l" "\<exists>b\<in>set (inner l). down (h ! a) = Some b \<and> key (h ! b) = key (h ! a) \<and> val (h ! b) = val (h ! a)"
  shows "linked h (splice_layer p a u) l"
  using assms unfolding linked_def by (auto simp: inner_splice)

lemma abs_layer_frame:
  assumes "\<forall>a\<in>set (inner l). a < length h"
  shows "abs_layer (splice_store h c n) l = abs_layer h l"
  unfolding abs_layer_def by (rule map_cong) (use assms in \<open>auto simp: splice_store_old\<close>)

lemma wf0_valid: "wf0 h ls \<Longrightarrow> i < length ls \<Longrightarrow> a \<in> set (nodes (ls ! i)) \<Longrightarrow> a < length h"
  using wf0_layer_ok[of h ls i] by (simp add: layer_ok_def)

lemma wf0_fresh: "wf0 h ls \<Longrightarrow> length h \<notin> set (concat (map nodes ls))"
  by (auto simp: wf0_def layer_ok_def)

lemma at_in_nodes: "j \<le> length (inner (ls ! i)) \<Longrightarrow> node_at ls i j \<in> set (nodes (ls ! i))"
  by (cases j) (auto simp: nodes_def)

lemma wf0_splice:
  assumes wf: "wf0 h ls" and i: "i < length ls" and k: "k \<notin> set (keyl h (ls ! i))"
    and n: "key n = k" "val n = v" "nxt n = nxt (h ! node_at ls i (pos h (ls ! i) k))" "down n = d"
    and d: "(i = 0 \<and> d = None) \<or>
            (\<exists>i'. i = Suc i' \<and> (\<exists>b\<in>set (inner (ls ! i')). d = Some b \<and> key (h ! b) = k \<and> val (h ! b) = v))"
  defines "h' \<equiv> splice_store h (node_at ls i (pos h (ls ! i) k)) n"
    and "ls' \<equiv> ls[i := splice_layer (pos h (ls ! i) k) (length h) (ls ! i)]"
  shows "wf0 h' ls'"
    and "map (abs_layer h') ls' = (map (abs_layer h) ls)[i := ins k v (abs_layer h (ls ! i))]"
proof -
  let ?p = "pos h (ls ! i) k" let ?c = "node_at ls i ?p" let ?a = "length h"
  let ?x = "splice_layer ?p ?a (ls ! i)"
  have dist: "distinct (concat (map nodes ls))" using wf by (simp add: wf0_def)
  have ok: "layer_ok h (ls ! j)" if "j < length ls" for j using wf0_layer_ok[OF wf that] .
  have c_in: "?c \<in> set (nodes (ls ! i))" using at_in_nodes[OF pos_le] .
  have c: "?c < length h" using wf0_valid[OF wf i c_in] .
  have len: "length ls' = length ls" by (simp add: ls'_def)
  have nth': "ls' ! j = (if j = i then ?x else ls ! j)" if "j < length ls" for j
    using that by (simp add: ls'_def nth_list_update)
  have valid': "a < length h" if "a \<in> set (nodes (ls ! j))" "j < length ls" for a j
    using wf0_valid[OF wf that(2,1)] .
  have 1: "ls' \<noteq> []" using wf by (simp add: ls'_def wf0_def)
  have 2: "distinct (concat (map nodes ls'))"
    unfolding ls'_def by (rule distinct_concat_update[OF dist i wf0_fresh[OF wf]])
  have 3: "layer_ok h' (ls' ! j)" if j: "j < length ls" for j
  proof (cases "j = i")
    case True
    then show ?thesis
      using splice_layer_ok[OF ok[OF i] layer_distinct[OF dist i] k n(1) n(3)] j
      by (simp add: nth' h'_def)
  next
    case False
    have "?c \<notin> set (nodes (ls ! j))"
      using layers_disjoint[OF dist i j] False c_in by auto
    then show ?thesis using layer_ok_frame[OF ok[OF j]] False j by (simp add: nth' h'_def)
  qed
  have newnode: "h' ! ?a = n" using c by (simp add: h'_def splice_store_new)
  have 4: "linked h' (ls' ! Suc j) (ls' ! j)" if j: "Suc j < length ls" for j
  proof -
    have "\<forall>a\<in>set (nodes (ls ! Suc j)) \<union> set (nodes (ls ! j)). a < length h"
      using valid' j by auto
    then have base: "linked h' (ls ! Suc j) (ls ! j)"
      unfolding h'_def by (rule linked_frame[OF wf0_linked[OF wf j]])
    consider "j = i" | "Suc j = i" | "j \<noteq> i" "Suc j \<noteq> i" by blast
    then show ?thesis
    proof cases
      case 1
      then show ?thesis
        using linked_lower_mono[OF base, of ?x] j by (simp add: nth' inner_splice subset_insertI)
    next
      case 2
      then obtain b where b: "b \<in> set (inner (ls ! j))" "d = Some b" "key (h ! b) = k" "val (h ! b) = v"
        using d by auto
      have "b < length h" using valid'[of b j] b(1) j by (simp add: nodes_def)
      then have "\<exists>b\<in>set (inner (ls ! j)). down (h' ! ?a) = Some b \<and> key (h' ! b) = key (h' ! ?a)
                   \<and> val (h' ! b) = val (h' ! ?a)"
        using b n by (intro bexI[of _ b]) (simp_all add: newnode, simp_all add: h'_def splice_store_old)
      then show ?thesis
        using linked_upper_splice[OF base] 2 j by (simp add: nth')
    next
      case 3
      then show ?thesis using base j by (simp add: nth')
    qed
  qed
  have 5: "down (h' ! a) = None" if a: "a \<in> set (nodes (hd ls'))" for a
  proof -
    have l0: "0 < length ls" using i by (cases ls) simp_all
    have hd': "hd ls' = ls' ! 0" using 1 by (simp add: hd_conv_nth)
    have hd0: "hd ls = ls ! 0" using l0 by (cases ls) simp_all
    have old: "down (h ! b) = None" if "b \<in> set (nodes (ls ! 0))" for b
      using wf that by (simp add: wf0_def hd0)
    show ?thesis
    proof (cases "a = ?a")
      case True
      have "i = 0"
      proof (rule ccontr)
        assume "i \<noteq> 0"
        then have "a \<in> set (nodes (ls ! 0))" using a l0 by (simp add: hd' nth')
        then show False using valid'[of a 0] l0 True by simp
      qed
      then show ?thesis using True d n(4) newnode by simp
    next
      case False
      then have a0: "a \<in> set (nodes (ls ! 0))"
        using a l0 by (cases "i = 0") (auto simp: hd' nth' nodes_splice)
      then have "a < length h" using valid'[of a 0] l0 by simp
      then show ?thesis using old[OF a0] by (simp add: h'_def splice_store_old)
    qed
  qed
  show "wf0 h' ls'"
    unfolding wf0_def using 1 2 3 4 5 len by (auto simp: all_set_conv_all_nth)
  show "map (abs_layer h') ls' = (map (abs_layer h) ls)[i := ins k v (abs_layer h (ls ! i))]"
  proof (rule nth_equalityI)
    show "length (map (abs_layer h') ls') = length ((map (abs_layer h) ls)[i := ins k v (abs_layer h (ls ! i))])"
      by (simp add: len)
  next
    fix j assume "j < length (map (abs_layer h') ls')"
    then have j: "j < length ls" by (simp add: len)
    show "map (abs_layer h') ls' ! j = (map (abs_layer h) ls)[i := ins k v (abs_layer h (ls ! i))] ! j"
    proof (cases "j = i")
      case True
      then show ?thesis
        using abs_splice[OF ok[OF i] c n(1,2)] j by (simp add: len nth' h'_def)
    next
      case False
      have "\<forall>a\<in>set (inner (ls ! j)). a < length h" using valid'[of _ j] j by (simp add: nodes_def)
      then show ?thesis
        using abs_layer_frame[of "ls ! j" h] False j by (simp add: len nth' h'_def)
    qed
  qed
qed

lemma layer_ok_frame_gen:
  assumes "layer_ok h l" "length h \<le> length h'"
    and f: "\<And>a. a \<in> set (nodes l) \<Longrightarrow> nxt (h' ! a) = nxt (h ! a) \<and> key (h' ! a) = key (h ! a)"
  shows "layer_ok h' l"
proof -
  have j: "(lsent l # inner l) ! j \<in> set (nodes l)" if "j \<le> length (inner l)" for j
    using that by (cases j) (auto simp: nodes_def)
  have "keyl h' l = keyl h l"
    unfolding keyl_def by (rule map_cong) (auto simp: f nodes_def)
  moreover have "rsent l \<in> set (nodes l)" by (simp add: nodes_def)
  ultimately show ?thesis
    using assms(1,2) unfolding layer_ok_def by (auto simp: f j)
qed

lemma linked_frame_gen:
  assumes "linked h u l"
    and "\<And>a. a \<in> set (nodes u) \<Longrightarrow> down (h' ! a) = down (h ! a)"
    and "\<And>a. a \<in> set (inner u) \<union> set (inner l) \<Longrightarrow> key (h' ! a) = key (h ! a) \<and> val (h' ! a) = val (h ! a)"
    and "up (h' ! lsent l) = up (h ! lsent l)" "up (h' ! rsent l) = up (h ! rsent l)"
  shows "linked h' u l"
  using assms unfolding linked_def nodes_def by simp

lemma abs_layer_frame_gen:
  assumes "\<And>a. a \<in> set (inner l) \<Longrightarrow> key (h' ! a) = key (h ! a) \<and> val (h' ! a) = val (h ! a)"
  shows "abs_layer h' l = abs_layer h l"
  unfolding abs_layer_def by (rule map_cong) (use assms in auto)

lemma in_layer_nodes:
  assumes "i < length ls" "a \<in> set (nodes (ls ! i))"
  shows "a \<in> set (concat (map nodes ls))"
proof -
  have "ls ! i \<in> set ls" using assms(1) by simp
  then show ?thesis using assms(2) by auto
qed

lemma wf0_frame:
  assumes wf: "wf0 h ls" and len: "length h \<le> length h'"
    and f: "\<And>a. a \<in> set (concat (map nodes ls)) \<Longrightarrow>
              nxt (h' ! a) = nxt (h ! a) \<and> key (h' ! a) = key (h ! a) \<and> val (h' ! a) = val (h ! a)
              \<and> down (h' ! a) = down (h ! a)"
    and u: "\<And>i. Suc i < length ls \<Longrightarrow>
              up (h' ! lsent (ls ! i)) = up (h ! lsent (ls ! i)) \<and> up (h' ! rsent (ls ! i)) = up (h ! rsent (ls ! i))"
  shows "wf0 h' ls" and "map (abs_layer h') ls = map (abs_layer h) ls"
proof -
  have fi: "nxt (h' ! a) = nxt (h ! a) \<and> key (h' ! a) = key (h ! a) \<and> val (h' ! a) = val (h ! a)
              \<and> down (h' ! a) = down (h ! a)" if "i < length ls" "a \<in> set (nodes (ls ! i))" for i a
    using f[OF in_layer_nodes[OF that]] .
  have 3: "layer_ok h' (ls ! i)" if "i < length ls" for i
    using layer_ok_frame_gen[OF wf0_layer_ok[OF wf that] len] fi[OF that] by blast
  have 4: "linked h' (ls ! Suc i) (ls ! i)" if i: "Suc i < length ls" for i
  proof (rule linked_frame_gen[OF wf0_linked[OF wf i]])
    show "\<And>a. a \<in> set (nodes (ls ! Suc i)) \<Longrightarrow> down (h' ! a) = down (h ! a)"
      using fi[OF i] by blast
    show "\<And>a. a \<in> set (inner (ls ! Suc i)) \<union> set (inner (ls ! i)) \<Longrightarrow>
            key (h' ! a) = key (h ! a) \<and> val (h' ! a) = val (h ! a)"
      using fi[OF i] fi[of i] i by (auto simp: nodes_def)
    show "up (h' ! lsent (ls ! i)) = up (h ! lsent (ls ! i))" "up (h' ! rsent (ls ! i)) = up (h ! rsent (ls ! i))"
      using u[OF i] by simp_all
  qed
  have ne: "ls \<noteq> []" using wf by (simp add: wf0_def)
  have 5: "down (h' ! a) = None" if "a \<in> set (nodes (hd ls))" for a
  proof -
    have "a \<in> set (nodes (ls ! 0))" using that ne by (simp add: hd_conv_nth)
    then have "down (h' ! a) = down (h ! a)" using fi[of 0 a] ne by simp
    then show ?thesis using wf that by (simp add: wf0_def)
  qed
  have "\<forall>l\<in>set ls. layer_ok h' l" using 3 by (auto simp: all_set_conv_all_nth)
  moreover have "distinct (concat (map nodes ls))" using wf by (simp add: wf0_def)
  ultimately show "wf0 h' ls"
    unfolding wf0_def using ne 4 5 by blast
  show "map (abs_layer h') ls = map (abs_layer h) ls"
  proof (rule nth_equalityI)
    fix i assume "i < length (map (abs_layer h') ls)"
    then have i: "i < length ls" by simp
    have "abs_layer h' (ls ! i) = abs_layer h (ls ! i)"
      by (rule abs_layer_frame_gen) (use fi[OF i] in \<open>auto simp: nodes_def\<close>)
    then show "map (abs_layer h') ls ! i = map (abs_layer h) ls ! i" using i by simp
  qed simp
qed

lemma wf0_snoc:
  assumes wf: "wf0 h ls" and t: "layer_ok h t" "linked h t (last ls)" "distinct (nodes t)"
    "set (nodes t) \<inter> set (concat (map nodes ls)) = {}"
  shows "wf0 h (ls @ [t])"
proof -
  have ne: "ls \<noteq> []" using wf by (simp add: wf0_def)
  have 4: "linked h ((ls @ [t]) ! Suc i) ((ls @ [t]) ! i)" if "Suc i < length (ls @ [t])" for i
  proof (cases "Suc i < length ls")
    case True
    then show ?thesis using wf0_linked[OF wf True] by (simp add: nth_append)
  next
    case False
    then have "i = length ls - 1" using that by simp
    then show ?thesis using t(2) ne by (simp add: nth_append last_conv_nth)
  qed
  have 2: "distinct (concat (map nodes (ls @ [t])))"
    using wf t(3,4) by (simp add: wf0_def Int_commute)
  have 3: "\<forall>l\<in>set (ls @ [t]). layer_ok h l" using wf t(1) by (simp add: wf0_def)
  have 5: "\<forall>a\<in>set (nodes (hd (ls @ [t]))). down (h ! a) = None"
    using wf ne by (simp add: wf0_def)
  show ?thesis unfolding wf0_def using 2 3 4 5 by blast
qed

lemma up_store_fields [simp]:
  "length (up_store h b q) = length h"
  "key (up_store h b q ! x) = key (h ! x)"
  "val (up_store h b q ! x) = val (h ! x)"
  "nxt (up_store h b q ! x) = nxt (h ! x)"
  "down (up_store h b q ! x) = down (h ! x)"
  by (cases "b < length h"; simp add: up_store_def nth_list_update list_update_beyond not_less)+

lemma up_store_up: "x < length h \<Longrightarrow> up (up_store h b q ! x) = (if x = b then q else up (h ! x))"
  by (cases "b < length h") (simp_all add: up_store_def nth_list_update)

lemma set_up_Some [simp]: "b < length h \<Longrightarrow> set_up h (Some b) q = Some (up_store h b q)"
  by (simp add: set_up_def up_store_def)

lemma inner_not_sent:
  assumes d: "distinct (concat (map nodes ls))" and i: "i < length ls" "j < length ls"
    and b: "b \<in> set (inner (ls ! i))"
  shows "b \<noteq> lsent (ls ! j) \<and> b \<noteq> rsent (ls ! j)"
proof (cases "i = j")
  case True
  have "distinct (nodes (ls ! i))" using layer_distinct[OF d i(1)] .
  then show ?thesis using b True by (auto simp: nodes_def)
next
  case False
  have "b \<in> set (nodes (ls ! i))" using b by (simp add: nodes_def)
  moreover have "lsent (ls ! j) \<in> set (nodes (ls ! j))" "rsent (ls ! j) \<in> set (nodes (ls ! j))"
    by (simp_all add: nodes_def)
  ultimately show ?thesis using layers_disjoint[OF d i False] by auto
qed

lemma wf0_up_inner:
  assumes wf: "wf0 h ls" and i: "i < length ls" and b: "b \<in> set (inner (ls ! i))"
  shows "wf0 (up_store h b q) ls" and "map (abs_layer (up_store h b q)) ls = map (abs_layer h) ls"
proof -
  have d: "distinct (concat (map nodes ls))" using wf by (simp add: wf0_def)
  have u: "up (up_store h b q ! lsent (ls ! j)) = up (h ! lsent (ls ! j))
           \<and> up (up_store h b q ! rsent (ls ! j)) = up (h ! rsent (ls ! j))" if "Suc j < length ls" for j
  proof -
    have j: "j < length ls" using that by simp
    have "lsent (ls ! j) < length h" "rsent (ls ! j) < length h"
      using wf0_valid[OF wf j] by (simp_all add: nodes_def)
    then show ?thesis using inner_not_sent[OF d i j b] by (simp add: up_store_up)
  qed
  show "wf0 (up_store h b q) ls" by (rule wf0_frame[OF wf]) (simp_all add: u)
  show "map (abs_layer (up_store h b q)) ls = map (abs_layer h) ls"
    by (rule wf0_frame[OF wf]) (simp_all add: u)
qed

lemma new_top_layer_eq:
  assumes "top_left s = Some tL" "top_right s = Some tR" "tL < length (store s)" "tR < length (store s)"
  shows "new_top_layer s cul cur =
         Some (s\<lparr>store := top_store (store s) tL tR cul cur, top_left := Some (length (store s)),
                 top_right := Some (Suc (length (store s))), layer_num := layer_num s + 1\<rparr>)"
  using assms
  by (simp add: new_top_layer_def new_Node_def set_next_def top_store_def nth_append)

lemma top_store_fields:
  "length (top_store h tL tR cul cur) = Suc (Suc (length h))"
  "x < length h \<Longrightarrow> key (top_store h tL tR cul cur ! x) = key (h ! x)"
  "x < length h \<Longrightarrow> val (top_store h tL tR cul cur ! x) = val (h ! x)"
  "x < length h \<Longrightarrow> nxt (top_store h tL tR cul cur ! x) = nxt (h ! x)"
  "x < length h \<Longrightarrow> down (top_store h tL tR cul cur ! x) = down (h ! x)"
  by (simp_all add: top_store_def nth_append)

lemma top_store_new:
  "nxt (top_store h tL tR cul cur ! length h) = Some (Suc (length h))"
  "down (top_store h tL tR cul cur ! length h) = cul"
  "nxt (top_store h tL tR cul cur ! Suc (length h)) = None"
  "down (top_store h tL tR cul cur ! Suc (length h)) = cur"
  by (simp_all add: top_store_def nth_append)

lemma top_store_up:
  "x < length h \<Longrightarrow> up (top_store h tL tR cul cur ! x)
     = (if x = tR then Some (Suc (length h)) else if x = tL then Some (length h) else up (h ! x))"
  by (simp add: top_store_def up_store_up nth_append)

lemma wf0_top:
  assumes wf: "wf0 h ls" and tL: "tL = lsent (last ls)" and tR: "tR = rsent (last ls)"
  defines "h' \<equiv> top_store h tL tR (Some tL) (Some tR)"
    and "t \<equiv> \<lparr>lsent = length h, inner = [], rsent = Suc (length h)\<rparr>"
  shows "wf0 h' (ls @ [t])" and "map (abs_layer h') (ls @ [t]) = map (abs_layer h) ls @ [[]]"
proof -
  have ne: "ls \<noteq> []" and d: "distinct (concat (map nodes ls))" using wf by (simp_all add: wf0_def)
  let ?n = "length ls - 1"
  have n: "?n < length ls" using ne by simp
  have last: "last ls = ls ! ?n" using ne by (simp add: last_conv_nth)
  have valid: "a < length h" if "a \<in> set (concat (map nodes ls))" for a
    using wf that by (auto simp: wf0_def layer_ok_def)
  have tlv: "tL < length h" "tR < length h" "tL \<noteq> tR"
    using wf0_valid[OF wf n, of tL] wf0_valid[OF wf n, of tR] layer_distinct[OF d n]
    by (auto simp: tL tR last nodes_def)
  have up_other: "up (h' ! lsent (ls ! i)) = up (h ! lsent (ls ! i))
                  \<and> up (h' ! rsent (ls ! i)) = up (h ! rsent (ls ! i))" if "Suc i < length ls" for i
  proof -
    have i: "i < length ls" "i \<noteq> ?n" using that by simp_all
    have dj: "set (nodes (ls ! i)) \<inter> set (nodes (ls ! ?n)) = {}" using layers_disjoint[OF d i(1) n i(2)] .
    have "lsent (ls ! i) \<noteq> tL" "lsent (ls ! i) \<noteq> tR" "rsent (ls ! i) \<noteq> tL" "rsent (ls ! i) \<noteq> tR"
      using dj by (auto simp: tL tR last nodes_def)
    moreover have "lsent (ls ! i) < length h" "rsent (ls ! i) < length h"
      using wf0_valid[OF wf i(1)] by (simp_all add: nodes_def)
    ultimately show ?thesis by (simp add: h'_def top_store_up)
  qed
  have wf': "wf0 h' ls" and abs': "map (abs_layer h') ls = map (abs_layer h) ls"
    by (rule wf0_frame[OF wf]; simp add: h'_def top_store_fields valid up_other[unfolded h'_def])+
  have 1: "layer_ok h' t"
    by (simp add: layer_ok_def t_def nodes_def keyl_def h'_def top_store_fields top_store_new)
  have 2: "linked h' t (last ls)"
    using tlv by (simp add: linked_def t_def h'_def top_store_new top_store_up tL[symmetric] tR[symmetric])
  have 3: "distinct (nodes t)" by (simp add: t_def nodes_def)
  have 4: "set (nodes t) \<inter> set (concat (map nodes ls)) = {}"
    using valid by (fastforce simp: t_def nodes_def)
  show "wf0 h' (ls @ [t])" by (rule wf0_snoc[OF wf' 1 2 3 4])
  show "map (abs_layer h') (ls @ [t]) = map (abs_layer h) ls @ [[]]"
    using abs' by (simp add: abs_layer_def t_def)
qed

lemma set_next_Some [simp]:
  "c < length h \<Longrightarrow> set_next (h @ [n]) (Some c) (Some (length h)) = Some (splice_store h c n)"
  by (simp add: set_next_def splice_store_def)

lemma keyl_abs_nth: "j < length ls \<Longrightarrow> keyl h (ls ! j) = map fst (map (abs_layer h) ls ! j)"
  by (simp add: keyl_abs)

lemma same_sents_refl: "same_sents ls ls"
  by (simp add: same_sents_def)

lemma same_sents_trans: "same_sents ls ls1 \<Longrightarrow> same_sents ls1 ls2 \<Longrightarrow> same_sents ls ls2"
  by (auto simp: same_sents_def)

lemma same_sents_splice: "same_sents ls (ls[i := splice_layer p a (ls ! i)])"
  by (cases "i < length ls") (auto simp: same_sents_def nth_list_update splice_layer_def)

lemma same_sents_snoc: "same_sents ls ls1 \<Longrightarrow> same_sents ls (ls1 @ [t])"
  by (auto simp: same_sents_def nth_append)

lemma promote_step:
  assumes inv: "tower_inv k v s ls p b" and go: "flipCoin k p" "layer_num s < max_layer_num s"
  shows "\<exists>s' ls'.
      promote k v s p (Some (lsent (ls ! Suc p))) (Some (rsent (ls ! Suc p))) (Some b)
        = promote k v s' (Suc p) (Some (lsent (ls' ! Suc (Suc p)))) (Some (rsent (ls' ! Suc (Suc p))))
            (Some (length (store s)))
      \<and> tower_inv k v s' ls' (Suc p) (length (store s))
      \<and> map (abs_layer (store s')) ls' = step_abs k v p (map (abs_layer (store s)) ls)
      \<and> layer_num s' = (if layer_num s \<le> p + 2 then layer_num s + 1 else layer_num s)
      \<and> max_layer_num s' = max_layer_num s
      \<and> same_sents ls ls'"
proof -
  let ?h = "store s" let ?i = "Suc p" let ?l = "ls ! Suc p"
  let ?pos = "pos ?h ?l k"
  let ?c = "node_at ls ?i ?pos"
  let ?a = "length ?h"
  let ?n = "\<lparr>key = k, val = v, nxt = nxt (?h ! ?c), down = Some b, up = None\<rparr>"
  let ?h2 = "splice_store ?h ?c ?n"
  let ?ls1 = "ls[?i := splice_layer ?pos ?a ?l]"
  let ?h3 = "up_store ?h2 b (Some ?a)"
  let ?A = "map (abs_layer ?h) ls"
  have ws: "wf_state s ls" and i: "?i < length ls" and b: "b \<in> set (inner (ls ! p))"
    and bk: "key (?h ! b) = k" "val (?h ! b) = v"
    and above: "\<And>j. p < j \<Longrightarrow> j < length ls \<Longrightarrow> k \<notin> set (keyl ?h (ls ! j))"
    using inv by (auto simp: tower_inv_def)
  have wf: "wf0 ?h ls" and len2: "2 \<le> length ls" and top: "inner (last ls) = []"
    and ln: "layer_num s = length ls"
    and tl: "top_left s = Some (lsent (last ls))" and tr: "top_right s = Some (rsent (last ls))"
    and bl: "bot_left s = Some (lsent (hd ls))" and br: "bot_right s = Some (rsent (hd ls))"
    and sz: "listSize s = length (inner (hd ls))"
    using ws by (auto simp: wf_state_def)
  have p: "p < length ls" using i by simp
  have ne: "ls \<noteq> []" "ls[Suc p := x] \<noteq> []" for x using i by auto
  have ok: "layer_ok ?h ?l" using wf0_layer_ok[OF wf i] .
  have c: "?c < ?a" using layer_ok_valid[OF ok pos_le] .
  have bv: "b < ?a" using wf0_valid[OF wf p] b by (simp add: nodes_def)
  have lv: "lsent ?l < ?a" "rsent ?l < ?a" using wf0_valid[OF wf i] by (simp_all add: nodes_def)
  have scan: "scan_lt ?h k (Some (lsent ?l)) = Some (Some ?c)"
    using scan_lt_layer[OF ok, of 0 k] by simp
  have wf2: "wf0 ?h2 ?ls1" and abs2: "map (abs_layer ?h2) ?ls1 = ?A[?i := ins k v (abs_layer ?h ?l)]"
    using wf0_splice[OF wf i above[OF _ i], of ?n v "Some b"] b bk by auto
  have l1: "length ?ls1 = length ls" by simp
  have nth1: "?ls1 ! j = (if j = ?i then splice_layer ?pos ?a ?l else ls ! j)" if "j < length ls" for j
    using that by (simp add: nth_list_update)
  have b1: "b \<in> set (inner (?ls1 ! p))" using b p by (simp add: nth1)
  have wf3: "wf0 ?h3 ?ls1" and abs3: "map (abs_layer ?h3) ?ls1 = ?A[?i := ins k v (?A ! ?i)]"
    using wf0_up_inner[OF wf2 _ b1, of "Some ?a"] p abs2 i by simp_all
  have new3: "key (?h3 ! ?a) = k" "val (?h3 ! ?a) = v" "length ?h3 = Suc ?a"
    using c by (simp_all add: splice_store_new)
  have a_in: "?a \<in> set (inner (?ls1 ! ?i))" using i by (simp add: nth1 inner_splice)
  have hd1: "hd ?ls1 = hd ls" using p by (cases ls) simp_all
  have lv3: "lsent ?l < length ?h3" "rsent ?l < length ?h3" using lv by simp_all
  have body: "promote k v s p (Some (lsent ?l)) (Some (rsent ?l)) (Some b)
      = (if layer_num s - 1 = Suc p
         then new_top_layer (s\<lparr>store := ?h3\<rparr>) (Some (lsent ?l)) (Some (rsent ?l))
         else Some (s\<lparr>store := ?h3\<rparr>)) \<bind>
        (\<lambda>s'. deref (store s') (Some (lsent ?l)) \<bind>
          (\<lambda>l. deref (store s') (Some (rsent ?l)) \<bind>
            (\<lambda>r. promote k v s' (Suc p) (up l) (up r) (Some ?a))))"
  proof -
    have bv2: "b < Suc ?a" using bv by simp
    show ?thesis
      by (subst promote.simps) (simp add: go scan c new_Node_def bv2)
  qed
  show ?thesis
  proof (cases "length ls = p + 2")
    case True
    let ?tL = "lsent ?l" and ?tR = "rsent ?l"
    let ?h4 = "top_store ?h3 ?tL ?tR (Some ?tL) (Some ?tR)"
    let ?t = "\<lparr>lsent = Suc ?a, inner = [], rsent = Suc (Suc ?a)\<rparr>"
    let ?ls' = "?ls1 @ [?t]"
    let ?s' = "s\<lparr>store := ?h4, top_left := Some (Suc ?a), top_right := Some (Suc (Suc ?a)),
                 layer_num := layer_num s + 1\<rparr>"
    have lastl: "last ls = ?l" using True by (simp add: last_conv_nth[OF ne(1)])
    have last1: "lsent (last ?ls1) = ?tL" "rsent (last ?ls1) = ?tR"
      using True i by (simp_all add: last_conv_nth[OF ne(2)] nth1)
    have nt: "new_top_layer (s\<lparr>store := ?h3\<rparr>) (Some ?tL) (Some ?tR) = Some ?s'"
      using new_top_layer_eq[of "s\<lparr>store := ?h3\<rparr>" ?tL ?tR "Some ?tL" "Some ?tR"] tl tr lastl lv3
      by simp
    have wf4: "wf0 ?h4 ?ls'" and abs4: "map (abs_layer ?h4) ?ls' = map (abs_layer ?h3) ?ls1 @ [[]]"
      using wf0_top[OF wf3 last1[symmetric]] by (simp_all add: new3)
    have neq: "?tL \<noteq> ?tR"
      using layer_distinct[OF _ i] wf by (auto simp: wf0_def nodes_def)
    have ups: "up (?h4 ! ?tL) = Some (Suc ?a)" "up (?h4 ! ?tR) = Some (Suc (Suc ?a))"
      using lv3 neq by (simp_all add: top_store_up)
    have nth': "?ls' ! Suc (Suc p) = ?t" "?ls' ! Suc p = ?ls1 ! Suc p" "hd ?ls' = hd ls" "last ?ls' = ?t"
      using True hd1 ne(2) by (simp_all add: nth_append)
    have eq: "promote k v s p (Some (lsent ?l)) (Some (rsent ?l)) (Some b)
        = promote k v ?s' (Suc p) (Some (lsent (?ls' ! Suc (Suc p)))) (Some (rsent (?ls' ! Suc (Suc p)))) (Some ?a)"
    proof -
      have "layer_num s - 1 = Suc p" using True ln by simp
      then show ?thesis unfolding body using nt ups lv3 by (simp add: nth' top_store_fields)
    qed
    have ws': "wf_state ?s' ?ls'"
      unfolding wf_state_def using wf4 len2 ln bl br sz by (simp add: nth' del: hd_append2)
    have keys4: "key (?h4 ! ?a) = k" "val (?h4 ! ?a) = v"
      using new3 by (simp_all add: top_store_fields)
    have inv': "tower_inv k v ?s' ?ls' (Suc p) ?a"
      unfolding tower_inv_def
    proof (intro conjI allI impI)
      show "wf_state ?s' ?ls'" by (rule ws')
      show "Suc (Suc p) < length ?ls'" using True by simp
      show "?a \<in> set (inner (?ls' ! Suc p))" using a_in by (simp add: nth')
      show "key (store ?s' ! ?a) = k" "val (store ?s' ! ?a) = v" using keys4 by simp_all
      fix j assume "Suc p < j" "j < length ?ls'"
      then have "j = Suc (Suc p)" using True by simp
      then show "k \<notin> set (keyl (store ?s') (?ls' ! j))" by (simp add: nth' keyl_def)
    qed
    have "map (abs_layer (store ?s')) ?ls' = step_abs k v p ?A"
      using abs4 abs3 True by (simp add: step_abs_def)
    moreover have "same_sents ls ?ls'" by (rule same_sents_snoc[OF same_sents_splice])
    ultimately show ?thesis using eq inv' ln True by (intro exI[of _ ?s'] exI[of _ ?ls']) simp
  next
    case False
    then have gt: "Suc (Suc p) < length ls" using i by simp
    let ?s' = "s\<lparr>store := ?h3\<rparr>"
    have lk: "linked ?h3 (?ls1 ! Suc (Suc p)) (?ls1 ! Suc p)"
      by (rule wf0_linked[OF wf3]) (use gt in simp)
    have ups: "up (?h3 ! lsent ?l) = Some (lsent (?ls1 ! Suc (Suc p)))"
        "up (?h3 ! rsent ?l) = Some (rsent (?ls1 ! Suc (Suc p)))"
      using lk i by (simp_all add: linked_def nth1)
    have eq: "promote k v s p (Some (lsent ?l)) (Some (rsent ?l)) (Some b)
        = promote k v ?s' (Suc p) (Some (lsent (?ls1 ! Suc (Suc p)))) (Some (rsent (?ls1 ! Suc (Suc p)))) (Some ?a)"
    proof -
      have "layer_num s - 1 \<noteq> Suc p" using False ln i by arith
      then show ?thesis unfolding body using ups lv3 by simp
    qed
    have last1: "last ?ls1 = last ls"
      using gt by (simp add: last_conv_nth[OF ne(1)] last_conv_nth[OF ne(2)] nth1)
    have ws': "wf_state ?s' ?ls1"
      unfolding wf_state_def using wf3 len2 ln bl br sz tl tr top by (simp add: hd1 last1)
    have inv': "tower_inv k v ?s' ?ls1 (Suc p) ?a"
      unfolding tower_inv_def
    proof (intro conjI allI impI)
      show "wf_state ?s' ?ls1" by (rule ws')
      show "Suc (Suc p) < length ?ls1" using gt by simp
      show "?a \<in> set (inner (?ls1 ! Suc p))" using a_in by simp
      show "key (store ?s' ! ?a) = k" "val (store ?s' ! ?a) = v" using new3 by simp_all
      fix j assume j: "Suc p < j" "j < length ?ls1"
      then have "keyl ?h3 (?ls1 ! j) = keyl ?h (ls ! j)"
        using keyl_abs_nth[of j ?ls1 ?h3] keyl_abs_nth[of j ls ?h] abs3 by simp
      then show "k \<notin> set (keyl (store ?s') (?ls1 ! j))" using above[of j] j by simp
    qed
    have "map (abs_layer (store ?s')) ?ls1 = step_abs k v p ?A"
      using abs3 False i by (simp add: step_abs_def)
    moreover have "same_sents ls ?ls1" by (rule same_sents_splice)
    ultimately show ?thesis using eq inv' ln False i by (intro exI[of _ ?s'] exI[of _ ?ls1]) simp
  qed
qed

lemma climb_ge: "p \<le> climb k cap layers p"
proof (induction k cap layers p rule: climb.induct)
  case (1 k cap layers p)
  show ?case
  proof (cases "flipCoin k p \<and> layers < cap")
    case True
    then show ?thesis using 1 by (subst climb.simps) simp
  next
    case False
    then show ?thesis by (subst climb.simps) auto
  qed
qed

lemma grow_same:
  assumes "Suc p < length A"
  shows "grow k v p p A = A"
proof -
  have m: "max (length A) (p + 2) = length A" using assms by simp
  show ?thesis
    unfolding grow_def m by (rule nth_equalityI) (auto simp: nth_or_def)
qed

lemma grow_step:
  assumes "Suc p < length A" "Suc p \<le> n"
  shows "grow k v (Suc p) n (step_abs k v p A) = grow k v p n A"
proof (rule nth_equalityI)
  show "length (grow k v (Suc p) n (step_abs k v p A)) = length (grow k v p n A)"
    using assms by (auto simp: grow_def step_abs_def max_def)
next
  fix i assume "i < length (grow k v (Suc p) n (step_abs k v p A))"
  then have i: "i < max (length (step_abs k v p A)) (n + 2)" "i < max (length A) (n + 2)"
    using assms by (auto simp: grow_def step_abs_def max_def split: if_splits)
  have "nth_or (step_abs k v p A) j = (if j = Suc p then ins k v (A ! Suc p) else nth_or A j)" for j
    using assms(1) by (auto simp: nth_or_def step_abs_def nth_append nth_list_update)
  then show "grow k v (Suc p) n (step_abs k v p A) ! i = grow k v p n A ! i"
    using i assms unfolding grow_def by (auto simp: nth_or_def)
qed

lemma promote_loop:
  assumes "tower_inv k v s ls p b" "layer_num s = layers" "max_layer_num s = cap"
  shows "\<exists>s' ls'.
      promote k v s p (Some (lsent (ls ! Suc p))) (Some (rsent (ls ! Suc p))) (Some b) = Some s'
      \<and> wf_state s' ls'
      \<and> map (abs_layer (store s')) ls' = grow k v p (climb k cap layers p) (map (abs_layer (store s)) ls)
      \<and> max_layer_num s' = cap
      \<and> same_sents ls ls'"
  using assms
proof (induction k cap layers p arbitrary: s ls b rule: climb.induct)
  case (1 k cap layers p)
  note inv = "1.prems"(1)
  have len: "Suc p < length (map (abs_layer (store s)) ls)" using inv by (simp add: tower_inv_def)
  show ?case
  proof (cases "flipCoin k p \<and> layers < cap")
    case False
    then have "promote k v s p (Some (lsent (ls ! Suc p))) (Some (rsent (ls ! Suc p))) (Some b) = Some s"
      using "1.prems"(2,3) by (subst promote.simps) auto
    moreover have "climb k cap layers p = p" using False by (subst climb.simps) auto
    ultimately show ?thesis
      using inv "1.prems"(3) grow_same[OF len] same_sents_refl[of ls]
      by (intro exI[of _ s] exI[of _ ls]) (simp add: tower_inv_def)
  next
    case True
    then have go: "flipCoin k p" "layer_num s < max_layer_num s" using "1.prems"(2,3) by simp_all
    let ?layers' = "if layers \<le> p + 2 then layers + 1 else layers"
    obtain s1 ls1 where st:
      "promote k v s p (Some (lsent (ls ! Suc p))) (Some (rsent (ls ! Suc p))) (Some b)
        = promote k v s1 (Suc p) (Some (lsent (ls1 ! Suc (Suc p)))) (Some (rsent (ls1 ! Suc (Suc p))))
            (Some (length (store s)))"
      "tower_inv k v s1 ls1 (Suc p) (length (store s))"
      "map (abs_layer (store s1)) ls1 = step_abs k v p (map (abs_layer (store s)) ls)"
      "layer_num s1 = ?layers'" "max_layer_num s1 = cap" "same_sents ls ls1"
      using promote_step[OF inv go] "1.prems"(2,3) by auto
    obtain s' ls' where fin:
      "promote k v s1 (Suc p) (Some (lsent (ls1 ! Suc (Suc p)))) (Some (rsent (ls1 ! Suc (Suc p))))
          (Some (length (store s))) = Some s'"
      "wf_state s' ls'"
      "map (abs_layer (store s')) ls' = grow k v (Suc p) (climb k cap ?layers' (Suc p)) (map (abs_layer (store s1)) ls1)"
      "max_layer_num s' = cap" "same_sents ls1 ls'"
      using "1.IH"[OF True, of s1 ls1 "length (store s)"] st(2,4,5) by auto
    have c: "climb k cap layers p = climb k cap ?layers' (Suc p)"
      using True by (subst climb.simps) simp
    have "Suc p \<le> climb k cap ?layers' (Suc p)" by (rule climb_ge)
    then have "map (abs_layer (store s')) ls' = grow k v p (climb k cap layers p) (map (abs_layer (store s)) ls)"
      using fin(3) st(3) grow_step[OF len] c by simp
    then show ?thesis
      using st(1) fin same_sents_trans[OF st(6) fin(5)] by (intro exI[of _ s'] exI[of _ ls']) simp
  qed
qed

lemma tower_grow:
  assumes "0 < length A"
  shows "grow k v 0 n (A[0 := ins k v (A ! 0)]) = tower k v n A"
proof (rule nth_equalityI)
  show "length (grow k v 0 n (A[0 := ins k v (A ! 0)])) = length (tower k v n A)"
    by (simp add: grow_def tower_def)
next
  fix i assume "i < length (grow k v 0 n (A[0 := ins k v (A ! 0)]))"
  then have i: "i < max (length A) (n + 2)" by (simp add: grow_def)
  have "nth_or (A[0 := ins k v (A ! 0)]) j = (if j = 0 then ins k v (A ! 0) else nth_or A j)" for j
    using assms by (auto simp: nth_or_def)
  then show "grow k v 0 n (A[0 := ins k v (A ! 0)]) ! i = tower k v n A ! i"
    using i assms unfolding grow_def tower_def by (auto simp: nth_or_def)
qed

lemma abs_nested_step:
  assumes "wf0 h ls" "Suc i < length ls"
  shows "set (abs_layer h (ls ! Suc i)) \<subseteq> set (abs_layer h (ls ! i))"
proof
  fix x assume "x \<in> set (abs_layer h (ls ! Suc i))"
  then obtain a where a: "a \<in> set (inner (ls ! Suc i))" "x = (key (h ! a), val (h ! a))"
    by (auto simp: abs_layer_def)
  then obtain b where "b \<in> set (inner (ls ! i))" "key (h ! b) = key (h ! a)" "val (h ! b) = val (h ! a)"
    using wf0_linked[OF assms] unfolding linked_def by blast
  then have "(key (h ! b), val (h ! b)) \<in> set (abs_layer h (ls ! i))" "x = (key (h ! b), val (h ! b))"
    using a(2) unfolding abs_layer_def by (simp_all add: image_iff, metis)
  then show "x \<in> set (abs_layer h (ls ! i))" by simp
qed

lemma abs_nested:
  assumes "wf0 h ls"
  shows "j < length ls \<Longrightarrow> i \<le> j \<Longrightarrow> set (abs_layer h (ls ! j)) \<subseteq> set (abs_layer h (ls ! i))"
proof (induction j)
  case 0
  then show ?case by simp
next
  case (Suc j)
  show ?case
  proof (cases "i = Suc j")
    case False
    then have "set (abs_layer h (ls ! j)) \<subseteq> set (abs_layer h (ls ! i))"
      using Suc by simp
    then show ?thesis using abs_nested_step[OF assms Suc.prems(1)] by blast
  qed simp
qed

lemma keys_nested:
  assumes "wf0 h ls" "j < length ls" "k \<notin> set (keyl h (ls ! 0))"
  shows "k \<notin> set (keyl h (ls ! j))"
  using abs_nested[OF assms(1,2), of 0] assms(3) by (auto simp: keyl_abs)

lemma base_test:
  assumes ok: "layer_ok h l"
  shows "deref h (nxt (h ! ((lsent l # inner l) ! pos h l k)))
           \<bind> (\<lambda>n. Some (nxt n \<noteq> None \<and> key n = k)) = Some (k \<in> set (keyl h l))"
proof -
  have srt: "sorted_wrt (<) (keyl h l)" using ok by (simp add: layer_ok_def)
  note mem = sorted_mem_pos[OF srt, of k, folded pos_def, simplified]
  have nx: "nxt (h ! ((lsent l # inner l) ! pos h l k)) = Some ((inner l @ [rsent l]) ! pos h l k)"
    using layer_ok_next[OF ok pos_le] .
  show ?thesis
  proof (cases "pos h l k < length (inner l)")
    case True
    then show ?thesis
      using mem layer_ok_inner[OF ok True] layer_ok_inner_next[OF ok True]
      by (simp add: nx nth_append keyl_nth)
  next
    case False
    then have "pos h l k = length (inner l)" using pos_le[of h l k] by simp
    then have "k \<notin> set (keyl h l)" "(inner l @ [rsent l]) ! pos h l k = rsent l"
      using mem by simp_all
    then show ?thesis
      unfolding nx using layer_ok_rsent[OF ok] layer_ok_last[OF ok] by simp
  qed
qed

lemma insert_search:
  assumes ws: "wf_state s ls"
  shows "insert_layers (store s) k (layer_num s) (top_left s) (top_left s)
         = Some (Some (node_at ls 0 (pos (store s) (ls ! 0) k)))"
proof -
  have wf: "wf0 (store s) ls" and len: "2 \<le> length ls" and ln: "layer_num s = length ls"
    and tl: "top_left s = Some (lsent (last ls))"
    using ws by (auto simp: wf_state_def)
  obtain m where m: "length ls = Suc m" using len by (cases ls) auto
  then have last: "last ls = ls ! m" by (cases ls rule: rev_cases) (auto simp: nth_append)
  have "insert_layers (store s) k (Suc m) (Some (node_at ls m 0)) (Some (lsent (ls ! m)))
          = Some (Some (node_at ls 0 (pos (store s) (ls ! 0) k)))"
    by (rule insert_layers_wf[OF wf]) (use m in simp_all)
  then show ?thesis unfolding ln tl last m by simp
qed

lemma insert_sl_dup:
  assumes ws: "wf_state s ls" and k: "k \<in> set (keyl (store s) (ls ! 0))"
  shows "insert_sl s k v = Some (False, s)"
proof -
  have wf: "wf0 (store s) ls" and len: "2 \<le> length ls" using ws by (auto simp: wf_state_def)
  have "0 < length ls" using len by linarith
  then have ok: "layer_ok (store s) (ls ! 0)" by (rule wf0_layer_ok[OF wf])
  let ?c = "node_at ls 0 (pos (store s) (ls ! 0) k)"
  have c: "?c < length (store s)" using layer_ok_valid[OF ok pos_le] .
  obtain n where n: "deref (store s) (nxt (store s ! ?c)) = Some n" "nxt n \<noteq> None \<and> key n = k"
    using base_test[OF ok, of k] k by (auto simp: bind_eq_Some_conv)
  show ?thesis
    using n c by (simp add: insert_sl_def insert_search[OF ws])
qed

lemma insert_sl_new:
  assumes ws: "wf_state s ls" and k: "k \<notin> set (keyl (store s) (ls ! 0))"
  shows "\<exists>s' ls'. insert_sl s k v = Some (True, s') \<and> wf_state s' ls'
      \<and> map (abs_layer (store s')) ls'
          = tower k v (climb k (cap_after s) (length ls) 0) (map (abs_layer (store s)) ls)
      \<and> max_layer_num s' = cap_after s \<and> same_sents ls ls'"
proof -
  let ?h = "store s" let ?l = "ls ! 0"
  let ?pos = "pos ?h ?l k"
  let ?c = "node_at ls 0 ?pos"
  let ?a = "length ?h"
  let ?n = "\<lparr>key = k, val = v, nxt = nxt (?h ! ?c), down = None, up = None\<rparr>"
  let ?h2 = "splice_store ?h ?c ?n"
  let ?ls1 = "ls[0 := splice_layer ?pos ?a ?l]"
  let ?A = "map (abs_layer ?h) ls"
  have wf: "wf0 ?h ls" and len2: "2 \<le> length ls" and top: "inner (last ls) = []"
    and ln: "layer_num s = length ls"
    and tl: "top_left s = Some (lsent (last ls))" and tr: "top_right s = Some (rsent (last ls))"
    and bl: "bot_left s = Some (lsent (hd ls))" and br: "bot_right s = Some (rsent (hd ls))"
    and sz: "listSize s = length (inner (hd ls))"
    using ws by (auto simp: wf_state_def)
  have ne: "ls \<noteq> []" "ls[0 := x] \<noteq> []" for x using len2 by (cases ls; simp)+
  have i: "0 < length ls" "Suc 0 < length ls" using len2 by linarith+
  have hd0: "hd ls = ls ! 0" using ne by (simp add: hd_conv_nth)
  have ok: "layer_ok ?h ?l" using wf0_layer_ok[OF wf i(1)] .
  have c: "?c < ?a" using layer_ok_valid[OF ok pos_le] .
  obtain n where n: "deref ?h (nxt (?h ! ?c)) = Some n" "\<not> (nxt n \<noteq> None \<and> key n = k)"
    using base_test[OF ok, of k] k by (auto simp: bind_eq_Some_conv)
  have wf2: "wf0 ?h2 ?ls1" and abs2: "map (abs_layer ?h2) ?ls1 = ?A[0 := ins k v (abs_layer ?h ?l)]"
    using wf0_splice[OF wf i(1) k, of ?n v None] by auto
  have nth1: "?ls1 ! j = (if j = 0 then splice_layer ?pos ?a ?l else ls ! j)" if "j < length ls" for j
    using that by (cases j) simp_all
  have hd1: "hd ?ls1 = splice_layer ?pos ?a ?l" using i by (simp add: hd_conv_nth[OF ne(2)])
  have last1: "last ?ls1 = last ls"
    using len2 by (simp add: last_conv_nth[OF ne(1)] last_conv_nth[OF ne(2)] nth1)
  have lk: "linked ?h2 (?ls1 ! Suc 0) (?ls1 ! 0)" by (rule wf0_linked[OF wf2]) (use i in simp)
  have sv: "lsent ?l < Suc ?a" "rsent ?l < Suc ?a"
    using wf0_valid[OF wf i(1)] by (simp_all add: nodes_def less_Suc_eq)
  have ups: "up (?h2 ! lsent ?l) = Some (lsent (?ls1 ! Suc 0))" "up (?h2 ! rsent ?l) = Some (rsent (?ls1 ! Suc 0))"
    using lk i by (simp_all add: linked_def nth1)
  let ?s1 = "s\<lparr>store := ?h2, listSize := listSize s + 1\<rparr>"
  let ?s2 = "if 16 < listSize ?s1 then ?s1\<lparr>max_layer_num := 3 * ceil_log2 (listSize ?s1) + 1\<rparr> else ?s1"
  have s2: "store ?s2 = ?h2" "listSize ?s2 = Suc (listSize s)" "max_layer_num ?s2 = cap_after s"
    "layer_num ?s2 = layer_num s" "top_left ?s2 = top_left s" "top_right ?s2 = top_right s"
    "bot_left ?s2 = bot_left s" "bot_right ?s2 = bot_right s"
    by (simp_all add: cap_after_def)
  have eq: "insert_sl s k v =
      promote k v ?s2 0 (Some (lsent (?ls1 ! Suc 0))) (Some (rsent (?ls1 ! Suc 0))) (Some ?a)
        \<bind> (\<lambda>s'. Some (True, s'))"
    using n c sv ups
    by (auto simp add: insert_sl_def insert_search[OF ws] new_Node_def bl br hd0 Let_def)
  have ws2: "wf_state ?s2 ?ls1"
    unfolding wf_state_def s2 using wf2 len2 top ln tl tr bl br sz
    by (simp add: hd1 last1 hd0)
  have new2: "key (?h2 ! ?a) = k" "val (?h2 ! ?a) = v" using c by (simp_all add: splice_store_new)
  have inv: "tower_inv k v ?s2 ?ls1 0 ?a"
    unfolding tower_inv_def s2
  proof (intro conjI allI impI)
    show "wf_state ?s2 ?ls1" by (rule ws2)
    show "Suc 0 < length ?ls1" using i by simp
    show "?a \<in> set (inner (?ls1 ! 0))" using i by (simp add: nth1 inner_splice)
    show "key (?h2 ! ?a) = k" "val (?h2 ! ?a) = v" using new2 by simp_all
    fix j assume j: "0 < j" "j < length ?ls1"
    then have "keyl ?h2 (?ls1 ! j) = keyl ?h (ls ! j)"
      using keyl_abs_nth[of j ?ls1 ?h2] keyl_abs_nth[of j ls ?h] abs2 by simp
    then show "k \<notin> set (keyl ?h2 (?ls1 ! j))" using keys_nested[OF wf _ k, of j] j by simp
  qed
  obtain s' ls' where fin:
    "promote k v ?s2 0 (Some (lsent (?ls1 ! Suc 0))) (Some (rsent (?ls1 ! Suc 0))) (Some ?a) = Some s'"
    "wf_state s' ls'"
    "map (abs_layer (store s')) ls' = grow k v 0 (climb k (cap_after s) (length ls) 0) (map (abs_layer ?h2) ?ls1)"
    "max_layer_num s' = cap_after s" "same_sents ?ls1 ls'"
    using promote_loop[OF inv, of "length ls" "cap_after s"] s2 ln by auto
  have "map (abs_layer (store s')) ls' = tower k v (climb k (cap_after s) (length ls) 0) ?A"
    using fin(3) abs2 tower_grow[of ?A k v] i by simp
  moreover have "same_sents ls ls'" by (rule same_sents_trans[OF same_sents_splice fin(5)])
  ultimately show ?thesis using eq fin by (intro exI[of _ s'] exI[of _ ls']) simp
qed

lemma rel_good:
  assumes "rel s A"
  shows "good A" and "layer_num s = length A" and "listSize s = length (A ! 0)"
proof -
  obtain ls where ws: "wf_state s ls" and A: "A = map (abs_layer (store s)) ls"
    using assms by (auto simp: rel_def)
  have wf: "wf0 (store s) ls" and len: "2 \<le> length ls" and top: "inner (last ls) = []"
    and ln: "layer_num s = length ls" and sz: "listSize s = length (inner (hd ls))"
    using ws by (auto simp: wf_state_def)
  have ne: "ls \<noteq> []" using len by (cases ls) simp_all
  show "layer_num s = length A" using ln A by simp
  show "listSize s = length (A ! 0)" using sz A ne by (simp add: hd_conv_nth abs_layer_def)
  have srt: "sorted_wrt (<) (map fst (A ! i))" if "i < length A" for i
    using wf0_layer_ok[OF wf, of i] that A by (simp add: layer_ok_def keyl_abs)
  have nest: "set (A ! j) \<subseteq> set (A ! i)" if "i \<le> j" "j < length A" for i j
    using abs_nested[OF wf, of j i] that A by simp
  have "last A = []" using top A ne by (simp add: last_map abs_layer_def)
  then show "good A" unfolding good_def using len A srt nest by simp
qed

lemma rel_new: "\<exists>s. SkipList_new = Some s \<and> rel s [[], []]"
proof -
  let ?ls = "[\<lparr>lsent = 0, inner = [], rsent = 1\<rparr>, \<lparr>lsent = 2, inner = [], rsent = 3\<rparr>]"
  let ?s = "\<lparr>store = [\<lparr>key = 0, val = 0, nxt = Some 1, down = None, up = Some 2\<rparr>,
      \<lparr>key = 0, val = 0, nxt = None, down = None, up = Some 3\<rparr>,
      \<lparr>key = 0, val = 0, nxt = Some 3, down = Some 0, up = None\<rparr>,
      \<lparr>key = 0, val = 0, nxt = None, down = Some 1, up = None\<rparr>],
     listSize = 0, top_left = Some 2, bot_left = Some 0, top_right = Some 3,
     bot_right = Some 1, layer_num = 2, max_layer_num = 13\<rparr>"
  have new: "SkipList_new = Some ?s"
    by (simp add: SkipList_new_def new_Node_def set_next_def set_up_def)
  have "wf0 (store ?s) ?ls"
    by (simp add: wf0_def nodes_def layer_ok_def linked_def keyl_def less_Suc_eq_0_disj
        less_Suc_eq all_conj_distrib)
  then have ws: "wf_state ?s ?ls" by (simp add: wf_state_def)
  have ab: "map (abs_layer (store ?s)) ?ls = [[], []]" by (simp add: abs_layer_def)
  have "rel ?s [[], []]" unfolding rel_def by (rule exI[of _ ?ls]) (rule conjI[OF ws ab])
  then show ?thesis using new by (intro exI[of _ ?s] conjI)
qed

lemma descend_lsent:
  assumes wf: "wf0 h ls"
  shows "i < length ls \<Longrightarrow> d \<le> i \<Longrightarrow>
         descend h d (Some (lsent (ls ! i))) = Some (Some (lsent (ls ! (i - d))))"
proof (induction d arbitrary: i)
  case 0
  then show ?case by simp
next
  case (Suc d)
  then obtain j where j: "i = Suc j" by (cases i) auto
  have "down (h ! lsent (ls ! Suc j)) = Some (lsent (ls ! j))"
    using wf0_linked[OF wf, of j] Suc.prems j by (simp add: linked_def)
  moreover have "descend h d (Some (lsent (ls ! j))) = Some (Some (lsent (ls ! (j - d))))"
    using Suc.IH[of j] Suc.prems j by simp
  ultimately show ?case using lsent_valid[OF wf Suc.prems(1)] j by simp
qed

lemma descend_rsent:
  assumes wf: "wf0 h ls"
  shows "i < length ls \<Longrightarrow> d \<le> i \<Longrightarrow>
         descend h d (Some (rsent (ls ! i))) = Some (Some (rsent (ls ! (i - d))))"
proof (induction d arbitrary: i)
  case 0
  then show ?case by simp
next
  case (Suc d)
  then obtain j where j: "i = Suc j" by (cases i) auto
  have "down (h ! rsent (ls ! Suc j)) = Some (rsent (ls ! j))"
    using wf0_linked[OF wf, of j] Suc.prems j by (simp add: linked_def)
  moreover have "descend h d (Some (rsent (ls ! j))) = Some (Some (rsent (ls ! (j - d))))"
    using Suc.IH[of j] Suc.prems j by simp
  moreover have "rsent (ls ! i) < length h"
    using wf0_valid[OF wf Suc.prems(1)] by (simp add: nodes_def)
  ultimately show ?case using j by simp
qed

lemma top_descends:
  assumes ws: "wf_state s ls" and ws': "wf_state s' ls'" and ss: "same_sents ls ls'"
  shows "descend (store s') (layer_num s' - layer_num s) (top_left s') = Some (top_left s)"
    and "descend (store s') (layer_num s' - layer_num s) (top_right s') = Some (top_right s)"
proof -
  obtain m where m: "length ls = Suc m" using ws by (cases ls) (auto simp: wf_state_def)
  obtain m' where m': "length ls' = Suc m'" using ws' by (cases ls') (auto simp: wf_state_def)
  have last: "last ls = ls ! m" using m by (cases ls rule: rev_cases) (auto simp: nth_append)
  have last': "last ls' = ls' ! m'" using m' by (cases ls' rule: rev_cases) (auto simp: nth_append)
  have le: "m \<le> m'" and same: "lsent (ls' ! m) = lsent (ls ! m)" "rsent (ls' ! m) = rsent (ls ! m)"
    using ss m m' by (auto simp: same_sents_def)
  have wf': "wf0 (store s') ls'" using ws' by (simp add: wf_state_def)
  have d: "layer_num s' - layer_num s = m' - m" "m' - (m' - m) = m"
    using ws ws' m m' le by (simp_all add: wf_state_def)
  have "descend (store s') (m' - m) (Some (lsent (ls' ! m'))) = Some (Some (lsent (ls' ! (m' - (m' - m)))))"
    by (rule descend_lsent[OF wf']) (use m' in simp_all)
  then show "descend (store s') (layer_num s' - layer_num s) (top_left s') = Some (top_left s)"
    using ws ws' d by (simp add: same last last' wf_state_def)
  have "descend (store s') (m' - m) (Some (rsent (ls' ! m'))) = Some (Some (rsent (ls' ! (m' - (m' - m)))))"
    by (rule descend_rsent[OF wf']) (use m' in simp_all)
  then show "descend (store s') (layer_num s' - layer_num s) (top_right s') = Some (top_right s)"
    using ws ws' d by (simp add: same last last' wf_state_def)
qed

lemma rel_insert_dup:
  assumes "rel s A" "k \<in> fst ` set (A ! 0)"
  shows "insert_sl s k v = Some (False, s)"
proof -
  obtain ls where ws: "wf_state s ls" and A: "A = map (abs_layer (store s)) ls"
    using assms(1) by (auto simp: rel_def)
  have "0 < length ls" using ws by (auto simp: wf_state_def)
  then have "k \<in> set (keyl (store s) (ls ! 0))" using assms(2) A by (simp add: keyl_abs)
  then show ?thesis by (rule insert_sl_dup[OF ws])
qed

lemma rel_insert_new:
  assumes "rel s A" "k \<notin> fst ` set (A ! 0)"
  shows "\<exists>s'. insert_sl s k v = Some (True, s')
           \<and> rel s' (tower k v (climb k (cap_after s) (length A) 0) A)
           \<and> max_layer_num s' = cap_after s
           \<and> descend (store s') (layer_num s' - layer_num s) (top_left s') = Some (top_left s)
           \<and> descend (store s') (layer_num s' - layer_num s) (top_right s') = Some (top_right s)"
proof -
  obtain ls where ws: "wf_state s ls" and A: "A = map (abs_layer (store s)) ls"
    using assms(1) by (auto simp: rel_def)
  have "0 < length ls" using ws by (auto simp: wf_state_def)
  then have "k \<notin> set (keyl (store s) (ls ! 0))" using assms(2) A by (simp add: keyl_abs)
  from insert_sl_new[OF ws this, of v] obtain s' ls' where r: "insert_sl s k v = Some (True, s')"
      "wf_state s' ls'"
      "map (abs_layer (store s')) ls' = tower k v (climb k (cap_after s) (length ls) 0) (map (abs_layer (store s)) ls)"
      "max_layer_num s' = cap_after s" "same_sents ls ls'"
    by blast
  have "rel s' (tower k v (climb k (cap_after s) (length A) 0) A)"
    unfolding rel_def A using r(2,3) by auto
  then show ?thesis using r(1,4) top_descends[OF ws r(2,5)] by simp
qed

lemma rel_allKeys: "rel s A \<Longrightarrow> allKeysInOrder s = Some (map fst (A ! 0))"
proof -
  assume "rel s A"
  then obtain ls where ws: "wf_state s ls" and A: "A = map (abs_layer (store s)) ls"
    by (auto simp: rel_def)
  have "0 < length ls" using ws by (auto simp: wf_state_def)
  then show ?thesis using allKeysInOrder_wf[OF ws] A by (simp add: keyl_abs)
qed

lemma good_distinct: "good A \<Longrightarrow> i < length A \<Longrightarrow> distinct (map fst (A ! i))"
  using strict_sorted_iff[of "map fst (A ! i)"] by (simp add: good_def)

lemma lookup_top_base:
  assumes "good A"
  shows "n \<le> length A \<Longrightarrow> 0 < n \<Longrightarrow> lookup_top A k n = map_of (A ! 0) k"
proof (induction n)
  case 0
  then show ?case by simp
next
  case (Suc n)
  have "0 < length A" using Suc.prems by linarith
  then have d0: "distinct (map fst (A ! 0))" by (rule good_distinct[OF assms])
  show ?case
  proof (cases "map_of (A ! n) k")
    case None
    then show ?thesis using Suc by (cases "n = 0") simp_all
  next
    case (Some v)
    then have "(k, v) \<in> set (A ! n)" by (rule map_of_SomeD)
    moreover have "set (A ! n) \<subseteq> set (A ! 0)" using assms Suc.prems by (simp add: good_def)
    ultimately have "map_of (A ! 0) k = Some v" using d0 by auto
    then show ?thesis using Some by simp
  qed
qed

lemma rel_find:
  assumes "rel s A"
  shows "find_sl s k = Some (case map_of (A ! 0) k of None \<Rightarrow> Inl KeyNotFound | Some v \<Rightarrow> Inr v)"
proof -
  obtain ls where ws: "wf_state s ls" and A: "A = map (abs_layer (store s)) ls"
    using assms by (auto simp: rel_def)
  have wf: "wf0 (store s) ls" and len: "2 \<le> length ls" and ln: "layer_num s = length ls"
    and tl: "top_left s = Some (lsent (last ls))"
    using ws by (auto simp: wf_state_def)
  obtain m where m: "length ls = Suc m" using len by (cases ls) auto
  then have last: "last ls = ls ! m" by (cases ls rule: rev_cases) (auto simp: nth_append)
  have "find_layers (store s) k (Suc m) (Some (node_at ls m 0)) (Some (lsent (ls ! m)))
          = Some (lookup_top A k (Suc m))"
    unfolding A by (rule find_layers_wf[OF wf]) (use m in simp_all)
  moreover have "lookup_top A k (Suc m) = map_of (A ! 0) k"
    by (rule lookup_top_base[OF rel_good(1)[OF assms]]) (use m A in simp_all)
  ultimately have "find_layers (store s) k (layer_num s) (top_left s) (top_left s)
                   = Some (map_of (A ! 0) k)"
    unfolding ln tl last m by simp
  then show ?thesis by (simp add: find_sl_def split: option.splits)
qed

lemma rel_height:
  assumes "rel s A"
  shows "height s k = Some (if hgt (akeys A) k (length A) = 0 then Inl KeyNotFound
                             else Inr (hgt (akeys A) k (length A)))"
proof -
  obtain ls where ws: "wf_state s ls" and A: "A = map (abs_layer (store s)) ls"
    using assms by (auto simp: rel_def)
  have wf: "wf0 (store s) ls" and len: "2 \<le> length ls" and ln: "layer_num s = length ls"
    and tl: "top_left s = Some (lsent (last ls))"
    using ws by (auto simp: wf_state_def)
  obtain m where m: "length ls = Suc m" using len by (cases ls) auto
  then have last: "last ls = ls ! m" by (cases ls rule: rev_cases) (auto simp: nth_append)
  have ak: "akeys A = map (keyl (store s)) ls" by (simp add: akeys_def A keyl_abs)
  have "height_layers (store s) k (Suc m) (Some (node_at ls m 0)) = Some (hgt (akeys A) k (Suc m))"
    unfolding ak by (rule height_layers_wf[OF wf]) (use m in simp_all)
  then have "height_layers (store s) k (layer_num s) (top_left s) = Some (hgt (akeys A) k (length A))"
    unfolding ln tl last m using m A by simp
  then show ?thesis by (simp add: height_def)
qed

section \<open>Facts about the abstract tower\<close>

lemma length_tower [simp]: "length (tower k v n A) = max (length A) (n + 2)"
  by (simp add: tower_def)

lemma nth_tower:
  "i < max (length A) (n + 2) \<Longrightarrow>
   tower k v n A ! i = (if i \<le> n then ins k v (nth_or A i) else nth_or A i)"
  by (simp add: tower_def)

lemma set_ins [simp]: "set (ins k v xs) = insert (k, v) (set xs)"
proof -
  have "set (takeWhile (\<lambda>x. fst x < k) xs) \<union> set (dropWhile (\<lambda>x. fst x < k) xs) = set xs"
    by (metis set_append takeWhile_dropWhile_id)
  then show ?thesis by (auto simp: ins_def)
qed

lemma length_ins [simp]: "length (ins k v xs) = Suc (length xs)"
proof -
  have "length (takeWhile (\<lambda>x. fst x < k) xs) + length (dropWhile (\<lambda>x. fst x < k) xs) = length xs"
    by (metis length_append takeWhile_dropWhile_id)
  then show ?thesis by (simp add: ins_def)
qed

lemma map_of_ins: "map_of (ins k v xs) k' = (if k' = k then Some v else map_of xs k')"
proof -
  let ?P = "\<lambda>x. fst x < k"
  have none: "map_of (takeWhile ?P xs) k = None"
    by (auto simp: map_of_eq_None_iff dest!: set_takeWhileD)
  have "map_of xs k' = map_of (takeWhile ?P xs @ dropWhile ?P xs) k'" by simp
  also have "\<dots> = (map_of (dropWhile ?P xs) ++ map_of (takeWhile ?P xs)) k'"
    by (simp only: map_of_append)
  finally have xs: "map_of xs k' = (map_of (dropWhile ?P xs) ++ map_of (takeWhile ?P xs)) k'" .
  show ?thesis
    unfolding ins_def map_of_append using none xs
    by (auto simp: map_add_def split: option.splits)
qed

lemma tower_base:
  "0 < length A \<Longrightarrow> tower k v n A ! 0 = ins k v (A ! 0)"
  by (simp add: nth_tower nth_or_def)

lemma hgt_cong:
  "(\<And>i. i < m \<Longrightarrow> (k \<in> set (K' ! i)) = (k \<in> set (K ! i))) \<Longrightarrow> hgt K' k m = hgt K k m"
  by (induction m) simp_all

lemma hgt_above:
  "m \<le> m' \<Longrightarrow> (\<And>i. m \<le> i \<Longrightarrow> i < m' \<Longrightarrow> k \<notin> set (K ! i)) \<Longrightarrow> hgt K k m' = hgt K k m"
proof (induction m')
  case 0
  then show ?case by simp
next
  case (Suc m')
  then show ?case by (cases "m = Suc m'") auto
qed

lemma akeys_nth: "i < length A \<Longrightarrow> akeys A ! i = map fst (A ! i)"
  by (simp add: akeys_def)

lemma tower_keys:
  assumes "i < max (length A) (n + 2)"
  shows "set (akeys (tower k v n A) ! i)
         = (if i \<le> n then insert k (set (map fst (nth_or A i))) else set (map fst (nth_or A i)))"
  using assms by (simp add: akeys_nth nth_tower)

lemma hgt_tower_new:
  assumes g: "good A" and k: "k \<notin> fst ` set (A ! 0)"
  shows "hgt (akeys (tower k v n A)) k (length (tower k v n A)) = Suc n"
proof -
  let ?A' = "tower k v n A"
  have notin: "k \<notin> fst ` set (nth_or A i)" for i
  proof (cases "i < length A")
    case True
    then have "set (A ! i) \<subseteq> set (A ! 0)" using g by (simp add: good_def)
    then show ?thesis using k True by (auto simp: nth_or_def)
  qed (simp add: nth_or_def)
  have "hgt (akeys ?A') k (length ?A') = hgt (akeys ?A') k (Suc n)"
    by (rule hgt_above) (simp_all add: tower_keys notin)
  also have "\<dots> = Suc n" by (simp add: tower_keys)
  finally show ?thesis .
qed

lemma hgt_tower_other:
  assumes k: "k \<noteq> k'"
  shows "hgt (akeys (tower k' v n A)) k (length (tower k' v n A)) = hgt (akeys A) k (length A)"
proof -
  let ?A' = "tower k' v n A"
  have mem: "(k \<in> set (akeys ?A' ! i)) = (k \<in> set (map fst (nth_or A i)))"
    if "i < max (length A) (n + 2)" for i
    using that k by (simp add: tower_keys)
  have "hgt (akeys ?A') k (length ?A') = hgt (akeys ?A') k (length A)"
    by (rule hgt_above) (simp_all add: mem nth_or_def)
  also have "\<dots> = hgt (akeys A) k (length A)"
    by (rule hgt_cong) (simp add: mem, simp add: nth_or_def akeys_nth)
  finally show ?thesis .
qed

lemma good_len: "good A \<Longrightarrow> 0 < length A"
  unfolding good_def by linarith

lemma keeps_refl: "keeps A A"
  by (simp add: keeps_def)

lemma in_keys_map_of: "k \<in> fst ` set xs \<longleftrightarrow> map_of xs k \<noteq> None"
  by (simp add: map_of_eq_None_iff)

lemma keeps_trans: "keeps A B \<Longrightarrow> keeps B C \<Longrightarrow> keeps A C"
  unfolding keeps_def in_keys_map_of by metis

lemma keeps_tower:
  assumes "0 < length A" "k \<notin> fst ` set (A ! 0)"
  shows "keeps A (tower k v n A)"
  unfolding keeps_def
proof (intro allI impI conjI)
  fix k' assume k': "k' \<in> fst ` set (A ! 0)"
  then have ne: "k' \<noteq> k" using assms(2) by auto
  show "map_of (tower k v n A ! 0) k' = map_of (A ! 0) k'"
    using ne assms(1) by (simp add: tower_base map_of_ins)
  show "hgt (akeys (tower k v n A)) k' (length (tower k v n A)) = hgt (akeys A) k' (length A)"
    by (rule hgt_tower_other[OF ne])
qed

lemma rel_step:
  assumes "rel s A" "insert_sl s k v = Some (b, s')"
  shows "\<exists>A'. rel s' A' \<and> keeps A A'"
proof (cases "k \<in> fst ` set (A ! 0)")
  case True
  then have "s' = s" using rel_insert_dup[OF assms(1) True, of v] assms(2) by simp
  then show ?thesis using assms(1) keeps_refl by blast
next
  case False
  have "0 < length A" using rel_good(1)[OF assms(1)] by (rule good_len)
  then show ?thesis
    using rel_insert_new[OF assms(1) False, of v] assms(2) keeps_tower[OF _ False] by auto
qed

lemma insert_sl_total:
  assumes "rel s A"
  shows "\<exists>b s'. insert_sl s k v = Some (b, s')"
  using rel_insert_dup[OF assms, of k v] rel_insert_new[OF assms, of k v] by blast

lemma rel_inserts:
  "rel s A \<Longrightarrow> \<exists>bs s' A'. inserts s kvs = Some (bs, s') \<and> rel s' A' \<and> keeps A A'"
proof (induction kvs arbitrary: s A)
  case Nil
  then show ?case using keeps_refl by auto
next
  case (Cons kv kvs)
  obtain k v where kv: "kv = (k, v)" by (cases kv)
  obtain b s1 where s1: "insert_sl s k v = Some (b, s1)" using insert_sl_total[OF Cons.prems] by blast
  obtain A1 where A1: "rel s1 A1" "keeps A A1" using rel_step[OF Cons.prems s1] by blast
  obtain bs s' A' where r: "inserts s1 kvs = Some (bs, s')" "rel s' A'" "keeps A1 A'"
    using Cons.IH[OF A1(1)] by blast
  have "inserts s (kv # kvs) = Some (b # bs, s')" using s1 r(1) by (simp add: kv)
  then show ?case using r(2) keeps_trans[OF A1(2) r(3)] by blast
qed

lemma fresh_inserts:
  assumes "SkipList_new = Some s0"
  shows "\<exists>bs s A. inserts s0 kvs = Some (bs, s) \<and> rel s A"
proof -
  have "rel s0 [[], []]" using rel_new assms by (metis option.inject)
  then show ?thesis using rel_inserts by blast
qed

lemma rel_inserts_distinct:
  "rel s A \<Longrightarrow> distinct (map fst kvs) \<Longrightarrow> fst ` set kvs \<inter> fst ` set (A ! 0) = {} \<Longrightarrow>
   \<exists>s' A'. inserts s kvs = Some (replicate (length kvs) True, s') \<and> rel s' A'
     \<and> fst ` set (A' ! 0) = fst ` set (A ! 0) \<union> fst ` set kvs
     \<and> length (A' ! 0) = length (A ! 0) + length kvs"
proof (induction kvs arbitrary: s A)
  case Nil
  then show ?case by auto
next
  case (Cons kv kvs)
  obtain k v where kv: "kv = (k, v)" by (cases kv)
  have knew: "k \<notin> fst ` set (A ! 0)" using Cons.prems(3) kv by auto
  have len: "0 < length A" using rel_good(1)[OF Cons.prems(1)] by (rule good_len)
  let ?A1 = "tower k v (climb k (cap_after s) (length A) 0) A"
  obtain s1 where s1: "insert_sl s k v = Some (True, s1)" "rel s1 ?A1"
    using rel_insert_new[OF Cons.prems(1) knew, of v] by blast
  have base: "?A1 ! 0 = ins k v (A ! 0)" using len by (rule tower_base)
  have d: "distinct (map fst kvs)" and kk: "k \<notin> fst ` set kvs"
    using Cons.prems(2) kv by auto
  have disj: "fst ` set kvs \<inter> fst ` set (?A1 ! 0) = {}"
    using Cons.prems(3) kk by (auto simp: base)
  obtain s' A' where r: "inserts s1 kvs = Some (replicate (length kvs) True, s')" "rel s' A'"
      "fst ` set (A' ! 0) = fst ` set (?A1 ! 0) \<union> fst ` set kvs"
      "length (A' ! 0) = length (?A1 ! 0) + length kvs"
    using Cons.IH[OF s1(2) d disj] by blast
  have "inserts s (kv # kvs) = Some (replicate (length (kv # kvs)) True, s')"
    using s1(1) r(1) by (simp add: kv)
  moreover have "fst ` set (A' ! 0) = fst ` set (A ! 0) \<union> fst ` set (kv # kvs)"
    using r(3) by (auto simp: base kv)
  moreover have "length (A' ! 0) = length (A ! 0) + length (kv # kvs)"
    using r(4) by (simp add: base)
  ultimately show ?case using r(2) by blast
qed

lemma climb_flips: "p \<le> q \<Longrightarrow> q < climb k cap layers p \<Longrightarrow> flipCoin k q"
proof (induction k cap layers p rule: climb.induct)
  case (1 k cap layers p)
  show ?case
  proof (cases "flipCoin k p \<and> layers < cap")
    case True
    then have c: "climb k cap layers p = climb k cap (if layers \<le> p + 2 then layers + 1 else layers) (p + 1)"
      by (subst climb.simps) simp
    show ?thesis
    proof (cases "q = p")
      case False
      then show ?thesis using 1 True c by simp
    qed (use True in simp)
  next
    case False
    then have "climb k cap layers p = p" by (subst climb.simps) auto
    then show ?thesis using 1 by simp
  qed
qed

lemma climb_stop:
  "p + 2 \<le> layers \<Longrightarrow> flipCoin k (climb k cap layers p) \<Longrightarrow>
   cap \<le> max layers (climb k cap layers p + 2)"
proof (induction k cap layers p rule: climb.induct)
  case (1 k cap layers p)
  show ?case
  proof (cases "flipCoin k p \<and> layers < cap")
    case True
    let ?l' = "if layers \<le> p + 2 then layers + 1 else layers"
    have c: "climb k cap layers p = climb k cap ?l' (p + 1)"
      using True by (subst climb.simps) simp
    have ge: "p + 1 \<le> climb k cap ?l' (p + 1)" by (rule climb_ge)
    have "cap \<le> max ?l' (climb k cap ?l' (p + 1) + 2)"
      using "1.IH"[OF True] "1.prems" c by (simp split: if_splits)
    then show ?thesis unfolding c using ge "1.prems"(1) by (simp split: if_splits add: max_def)
  next
    case False
    then have c: "climb k cap layers p = p" by (subst climb.simps) auto
    then show ?thesis using False "1.prems" by (simp add: max_def)
  qed
qed

lemma rel_top:
  assumes "rel s A"
  shows "top_layer_empty s"
proof -
  obtain ls where ws: "wf_state s ls" using assms by (auto simp: rel_def)
  have wf: "wf0 (store s) ls" and len: "2 \<le> length ls" and top: "inner (last ls) = []"
    and tl: "top_left s = Some (lsent (last ls))" and tr: "top_right s = Some (rsent (last ls))"
    using ws by (auto simp: wf_state_def)
  obtain m where m: "length ls = Suc (Suc m)" using len by (cases ls; cases "tl ls") auto
  then have last: "last ls = ls ! Suc m" by (cases ls rule: rev_cases) (auto simp: nth_append)
  have i: "Suc m < length ls" "m < length ls" using m by simp_all
  have ok: "layer_ok (store s) (ls ! Suc m)" using wf0_layer_ok[OF wf i(1)] .
  have lk: "linked (store s) (ls ! Suc m) (ls ! m)" using wf0_linked[OF wf i(1)] .
  have v: "lsent (ls ! Suc m) < length (store s)" "rsent (ls ! Suc m) < length (store s)"
      "lsent (ls ! m) < length (store s)" "rsent (ls ! m) < length (store s)"
    using wf0_valid[OF wf i(1)] wf0_valid[OF wf i(2)] by (simp_all add: nodes_def)
  have "nxt (store s ! lsent (ls ! Suc m)) = Some (rsent (ls ! Suc m))"
    using layer_ok_next[OF ok, of 0] top last by simp
  then show ?thesis
    using v lk layer_ok_last[OF ok]
    by (simp add: top_layer_empty_def tl tr last linked_def)
qed

lemma rel_inserts_keys:
  "rel s A \<Longrightarrow> inserts s kvs = Some (bs, s') \<Longrightarrow>
   \<exists>A'. rel s' A' \<and> fst ` set (A' ! 0) = fst ` set (A ! 0) \<union> fst ` set kvs"
proof (induction kvs arbitrary: s A bs)
  case Nil
  then show ?case by auto
next
  case (Cons kv kvs)
  obtain k v where kv: "kv = (k, v)" by (cases kv)
  obtain b s1 bs1 where s1: "insert_sl s k v = Some (b, s1)" "inserts s1 kvs = Some (bs1, s')"
    using Cons.prems(2) by (auto simp: kv bind_eq_Some_conv)
  have len: "0 < length A" using rel_good(1)[OF Cons.prems(1)] by (rule good_len)
  have "\<exists>A1. rel s1 A1 \<and> fst ` set (A1 ! 0) = insert k (fst ` set (A ! 0))"
  proof (cases "k \<in> fst ` set (A ! 0)")
    case True
    then have "s1 = s" using rel_insert_dup[OF Cons.prems(1) True, of v] s1(1) by simp
    then show ?thesis using Cons.prems(1) True by auto
  next
    case False
    let ?A1 = "tower k v (climb k (cap_after s) (length A) 0) A"
    have "rel s1 ?A1" using rel_insert_new[OF Cons.prems(1) False, of v] s1(1) by auto
    moreover have "fst ` set (?A1 ! 0) = insert k (fst ` set (A ! 0))"
      using len by (simp add: tower_base)
    ultimately show ?thesis by blast
  qed
  then obtain A1 where A1: "rel s1 A1" "fst ` set (A1 ! 0) = insert k (fst ` set (A ! 0))" by blast
  obtain A' where "rel s' A'" "fst ` set (A' ! 0) = fst ` set (A1 ! 0) \<union> fst ` set kvs"
    using Cons.IH[OF A1(1) s1(2)] by blast
  then show ?case using A1(2) by (auto simp: kv)
qed

lemma fresh_rel:
  assumes "SkipList_new = Some s0" "inserts s0 kvs = Some (bs, s)"
  shows "\<exists>A. rel s A \<and> fst ` set (A ! 0) = fst ` set kvs"
proof -
  have "rel s0 [[], []]" using rel_new assms(1) by (metis option.inject)
  then show ?thesis using rel_inserts_keys[OF _ assms(2)] by fastforce
qed

text \<open>
  Claim C2. For every finite sequence of insert calls with pairwise-distinct keys on a
  freshly constructed engine, every call succeeds, \<open>size()\<close> is the number of (successful)
  inserts, and \<open>allKeysInOrder()\<close> is exactly those keys in increasing order.
\<close>

theorem C2_distinct_inserts:
  assumes "distinct (map fst kvs)"
  shows "\<exists>s0 s. SkipList_new = Some s0
           \<and> inserts s0 kvs = Some (replicate (length kvs) True, s)
           \<and> size_sl s = length kvs
           \<and> allKeysInOrder s = Some (sort (map fst kvs))"
proof -
  obtain s0 where s0: "SkipList_new = Some s0" "rel s0 [[], []]" using rel_new by blast
  obtain s A where r: "inserts s0 kvs = Some (replicate (length kvs) True, s)" "rel s A"
      "fst ` set (A ! 0) = fst ` set kvs" "length (A ! 0) = length kvs"
    using rel_inserts_distinct[OF s0(2) assms] by auto
  have g: "good A" using rel_good(1)[OF r(2)] .
  have "sorted_wrt (<) (map fst (A ! 0))" using g good_len[OF g] by (simp add: good_def)
  then have "sorted (map fst (A ! 0))" "distinct (map fst (A ! 0))"
    using strict_sorted_iff[of "map fst (A ! 0)"] by simp_all
  moreover have "set (map fst (A ! 0)) = set (sort (map fst kvs))" using r(3) by simp
  ultimately have "map fst (A ! 0) = sort (map fst kvs)"
    using assms by (intro sorted_distinct_set_unique) simp_all
  then have "allKeysInOrder s = Some (sort (map fst kvs))" using rel_allKeys[OF r(2)] by simp
  moreover have "size_sl s = length kvs" using rel_good(3)[OF r(2)] r(4) by (simp add: size_sl_def)
  ultimately show ?thesis using s0(1) r(1) by blast
qed

theorem C2_distinct_inserts_witness:
  "\<exists>s0 s. SkipList_new = Some s0
     \<and> inserts s0 [(5, 50), (2, 20), (9, 90), (7, 70)] = Some ([True, True, True, True], s)
     \<and> size_sl s = 4
     \<and> allKeysInOrder s = Some [2, 5, 7, 9]"
proof -
  let ?kvs = "[(5, 50), (2, 20), (9, 90), (7, 70)] :: (32 word \<times> 32 word) list"
  have d: "distinct (map fst ?kvs)" by simp
  have srt: "sort (map fst ?kvs) = [2, 5, 7, 9]" by simp
  have len: "length ?kvs = 4" by simp
  have rep: "replicate 4 True = [True, True, True, True]" by (simp add: eval_nat_numeral)
  show ?thesis using C2_distinct_inserts[OF d] unfolding srt len rep .
qed

text \<open>
  Claim C6. On an engine that already holds key \<open>k\<close> (one of the keys inserted since
  construction), \<open>insert(k, v)\<close> returns false and the state after the call is the state
  before it: \<open>size()\<close>, \<open>allKeysInOrder()\<close>, \<open>numLayers()\<close> and the value found for
  every key are unchanged.
\<close>

theorem C6_duplicate_insert:
  assumes "SkipList_new = Some s0" and "inserts s0 kvs = Some (bs, s)" and "k \<in> fst ` set kvs"
  shows "\<exists>s'. insert_sl s k v = Some (False, s') \<and> s' = s
           \<and> size_sl s' = size_sl s \<and> allKeysInOrder s' = allKeysInOrder s
           \<and> numLayers s' = numLayers s \<and> (\<forall>k'. find_sl s' k' = find_sl s k')"
proof -
  obtain A where A: "rel s A" "fst ` set (A ! 0) = fst ` set kvs"
    using fresh_rel[OF assms(1,2)] by blast
  have "insert_sl s k v = Some (False, s)"
    by (rule rel_insert_dup[OF A(1)]) (use A(2) assms(3) in simp)
  then show ?thesis by simp
qed

theorem C6_duplicate_insert_witness:
  "\<exists>s0 bs s s'. SkipList_new = Some s0 \<and> inserts s0 [(3, 5), (1, 7)] = Some (bs, s)
     \<and> (3 :: 32 word) \<in> fst ` set [(3, 5 :: 32 word), (1, 7)]
     \<and> insert_sl s 3 9 = Some (False, s') \<and> s' = s \<and> find_sl s' 3 = Some (Inr 5)
     \<and> size_sl s' = size_sl s \<and> allKeysInOrder s' = allKeysInOrder s
     \<and> numLayers s' = numLayers s \<and> (\<forall>k'. find_sl s' k' = find_sl s k')"
proof -
  have "SkipList_new \<bind> (\<lambda>s0. inserts s0 [(3, 5), (1, 7)] \<bind> (\<lambda>(bs, s). find_sl s 3)) = Some (Inr 5)"
    by code_simp
  then obtain s0 bs s where a: "SkipList_new = Some s0" "inserts s0 [(3, 5), (1, 7)] = Some (bs, s)"
      "find_sl s 3 = Some (Inr 5)"
    by (auto simp: bind_eq_Some_conv simp del: inserts.simps)
  have k: "(3 :: 32 word) \<in> fst ` set [(3, 5 :: 32 word), (1, 7)]" by simp
  from C6_duplicate_insert[OF a(1,2) k, of 9] a k show ?thesis by auto
qed

text \<open>
  Claim C7. Once \<open>insert(k, v)\<close> has succeeded, \<open>find(k)\<close> returns \<open>v\<close> after any later
  sequence of inserts (the only operation that changes the engine; the queries are
  functions of the state). In particular, after \<open>insert(3, 5)\<close> on a fresh engine,
  \<open>find(3)\<close> is 5.
\<close>

theorem C7_find_after_insert:
  assumes "SkipList_new = Some s0" and "inserts s0 kvs1 = Some (bs1, s1)"
    and "insert_sl s1 k v = Some (True, s2)" and "inserts s2 kvs2 = Some (bs2, s3)"
  shows "find_sl s3 k = Some (Inr v)
         \<and> SkipList_new \<bind> (\<lambda>s. insert_sl s 3 5 \<bind> (\<lambda>(b, s'). find_sl s' 3)) = Some (Inr 5)"
proof -
  obtain A1 where A1: "rel s1 A1" using fresh_rel[OF assms(1,2)] by blast
  have new: "k \<notin> fst ` set (A1 ! 0)"
    using rel_insert_dup[OF A1, of k v] assms(3) by auto
  let ?A2 = "tower k v (climb k (cap_after s1) (length A1) 0) A1"
  have A2: "rel s2 ?A2" using rel_insert_new[OF A1 new, of v] assms(3) by auto
  have len: "0 < length A1" using rel_good(1)[OF A1] by (rule good_len)
  have v2: "map_of (?A2 ! 0) k = Some v" using len by (simp add: tower_base map_of_ins)
  then have k2: "k \<in> fst ` set (?A2 ! 0)" by (simp add: in_keys_map_of)
  obtain A3 where A3: "rel s3 A3" "keeps ?A2 A3"
    using rel_inserts[OF A2, of kvs2] assms(4) by auto
  have "map_of (A3 ! 0) k = Some v" using A3(2) k2 v2 by (simp add: keeps_def)
  then have "find_sl s3 k = Some (Inr v)" using rel_find[OF A3(1), of k] by simp
  moreover have "SkipList_new \<bind> (\<lambda>s. insert_sl s 3 5 \<bind> (\<lambda>(b, s'). find_sl s' 3)) = Some (Inr 5)"
    by code_simp
  ultimately show ?thesis by simp
qed

theorem C7_find_after_insert_witness:
  "\<exists>s0 bs1 s1 s2 bs2 s3. SkipList_new = Some s0 \<and> inserts s0 [(1, 7)] = Some (bs1, s1)
     \<and> insert_sl s1 3 5 = Some (True, s2)
     \<and> inserts s2 [(8, 8), (3, 9), (2, 2)] = Some (bs2, s3)
     \<and> find_sl s3 3 = Some (Inr 5)"
proof -
  have "SkipList_new \<bind> (\<lambda>s0. inserts s0 [(1, 7)] \<bind> (\<lambda>(bs1, s1). insert_sl s1 3 5 \<bind>
          (\<lambda>(b, s2). inserts s2 [(8, 8), (3, 9), (2, 2)] \<bind> (\<lambda>(bs2, s3). Some b)))) = Some True"
    by code_simp
  then obtain s0 bs1 s1 s2 bs2 s3 where a: "SkipList_new = Some s0" "inserts s0 [(1, 7)] = Some (bs1, s1)"
      "insert_sl s1 3 5 = Some (True, s2)" "inserts s2 [(8, 8), (3, 9), (2, 2)] = Some (bs2, s3)"
    by (auto simp: bind_eq_Some_conv simp del: inserts.simps)
  from C7_find_after_insert[OF a] a show ?thesis by blast
qed

text \<open>
  Claim C4. For a key \<open>k\<close> present in the skip list, \<open>height(k)\<close> is 1 plus the number of
  consecutive true results of the promotion function for \<open>k\<close> from promotion count 0,
  truncated by the layer cap in force during \<open>k\<close>'s insertion: the count is
  \<^const>\<open>climb\<close> on \<open>k\<close>, the cap after the insert and the layer count before it. All
  promotion counts below it gave true, and if the result at the count itself is true
  too then the layer count has reached the cap. Later inserts do not change the height.
\<close>

theorem C4_height_is_promotion_count:
  assumes "SkipList_new = Some s0" and "inserts s0 kvs1 = Some (bs1, s1)"
    and "insert_sl s1 k v = Some (True, s2)" and "inserts s2 kvs2 = Some (bs2, s3)"
  shows "height s3 k = Some (Inr (1 + climb k (max_layer_num s2) (numLayers s1) 0))
         \<and> (\<forall>q<climb k (max_layer_num s2) (numLayers s1) 0. flipCoin k q)
         \<and> (flipCoin k (climb k (max_layer_num s2) (numLayers s1) 0)
              \<longrightarrow> max_layer_num s2 \<le> numLayers s2)"
proof -
  obtain A1 where A1: "rel s1 A1" using fresh_rel[OF assms(1,2)] by blast
  have new: "k \<notin> fst ` set (A1 ! 0)"
    using rel_insert_dup[OF A1, of k v] assms(3) by auto
  let ?n = "climb k (cap_after s1) (length A1) 0"
  let ?A2 = "tower k v ?n A1"
  have A2: "rel s2 ?A2" and cap: "max_layer_num s2 = cap_after s1"
    using rel_insert_new[OF A1 new, of v] assms(3) by auto
  have g1: "good A1" using rel_good(1)[OF A1] .
  have len: "0 < length A1" "2 \<le> length A1" using g1 good_len[OF g1] by (simp_all add: good_def)
  have l1: "numLayers s1 = length A1" using rel_good(2)[OF A1] by (simp add: numLayers_def)
  have l2: "numLayers s2 = max (length A1) (?n + 2)" using rel_good(2)[OF A2] by (simp add: numLayers_def)
  have h2: "hgt (akeys ?A2) k (length ?A2) = Suc ?n" by (rule hgt_tower_new[OF g1 new])
  have k2: "k \<in> fst ` set (?A2 ! 0)" using len by (simp add: tower_base)
  obtain A3 where A3: "rel s3 A3" "keeps ?A2 A3"
    using rel_inserts[OF A2, of kvs2] assms(4) by auto
  have "hgt (akeys A3) k (length A3) = Suc ?n" using A3(2) k2 h2 by (simp add: keeps_def)
  then have 1: "height s3 k = Some (Inr (1 + ?n))" using rel_height[OF A3(1), of k] by simp
  have 2: "\<forall>q<?n. flipCoin k q" using climb_flips[of 0 _ k "cap_after s1" "length A1"] by simp
  have 3: "flipCoin k ?n \<longrightarrow> cap_after s1 \<le> max (length A1) (?n + 2)"
    using climb_stop[of 0 "length A1" k "cap_after s1"] len(2) by simp
  show ?thesis unfolding cap l1 l2 using 1 2 3 by blast
qed

theorem C4_height_is_promotion_count_witness:
  "(\<exists>s0 bs1 s1 s2 bs2 s3. SkipList_new = Some s0 \<and> inserts s0 [] = Some (bs1, s1)
      \<and> insert_sl s1 3 5 = Some (True, s2) \<and> inserts s2 [(6, 1), (2, 2)] = Some (bs2, s3)
      \<and> max_layer_num s2 = 13 \<and> numLayers s1 = 2 \<and> climb 3 13 2 0 = 2
      \<and> height s3 3 = Some (Inr (1 + 2)) \<and> flipCoin 3 0 \<and> flipCoin 3 1 \<and> \<not> flipCoin 3 2)
   \<and> (\<exists>s0 bs1 s1 s2 bs2 s3. SkipList_new = Some s0 \<and> inserts s0 [(255, 1)] = Some (bs1, s1)
      \<and> insert_sl s1 5 2 = Some (True, s2) \<and> inserts s2 [(7, 3)] = Some (bs2, s3)
      \<and> max_layer_num s2 = 13 \<and> numLayers s1 = 13 \<and> numLayers s2 = 13 \<and> climb 5 13 13 0 = 0
      \<and> height s3 5 = Some (Inr (1 + 0)) \<and> flipCoin 5 0)"
proof -
  have "SkipList_new \<bind> (\<lambda>s0. inserts s0 [] \<bind> (\<lambda>(bs1, s1). insert_sl s1 3 5 \<bind>
          (\<lambda>(b, s2). inserts s2 [(6, 1), (2, 2)] \<bind>
             (\<lambda>(bs2, s3). Some (b, max_layer_num s2, numLayers s1))))) = Some (True, 13, 2)"
    by code_simp
  then obtain s0 bs1 s1 s2 bs2 s3 where a: "SkipList_new = Some s0" "inserts s0 [] = Some (bs1, s1)"
      "insert_sl s1 3 5 = Some (True, s2)" "inserts s2 [(6, 1), (2, 2)] = Some (bs2, s3)"
    and n: "max_layer_num s2 = 13" "numLayers s1 = 2"
    by (auto simp: bind_eq_Some_conv simp del: inserts.simps)
  have c: "climb 3 13 2 0 = 2" by code_simp
  have f: "flipCoin 3 0 \<and> flipCoin 3 1 \<and> \<not> flipCoin 3 2" by (simp add: flipCoin_def)
  have 1: "\<exists>s0 bs1 s1 s2 bs2 s3. SkipList_new = Some s0 \<and> inserts s0 [] = Some (bs1, s1)
      \<and> insert_sl s1 3 5 = Some (True, s2) \<and> inserts s2 [(6, 1), (2, 2)] = Some (bs2, s3)
      \<and> max_layer_num s2 = 13 \<and> numLayers s1 = 2 \<and> climb 3 13 2 0 = 2
      \<and> height s3 3 = Some (Inr (1 + 2)) \<and> flipCoin 3 0 \<and> flipCoin 3 1 \<and> \<not> flipCoin 3 2"
    using C4_height_is_promotion_count[OF a] a n c f by (metis (no_types, lifting))
  have "SkipList_new \<bind> (\<lambda>s0. inserts s0 [(255, 1)] \<bind> (\<lambda>(bs1, s1). insert_sl s1 5 2 \<bind>
          (\<lambda>(b, s2). inserts s2 [(7, 3)] \<bind>
             (\<lambda>(bs2, s3). Some (b, max_layer_num s2, numLayers s1, numLayers s2))))) = Some (True, 13, 13, 13)"
    by code_simp
  then obtain t0 cs1 t1 t2 cs2 t3 where b: "SkipList_new = Some t0" "inserts t0 [(255, 1)] = Some (cs1, t1)"
      "insert_sl t1 5 2 = Some (True, t2)" "inserts t2 [(7, 3)] = Some (cs2, t3)"
    and m: "max_layer_num t2 = 13" "numLayers t1 = 13" "numLayers t2 = 13"
    by (auto simp: bind_eq_Some_conv simp del: inserts.simps)
  have c': "climb 5 13 13 0 = 0" by code_simp
  have f': "flipCoin 5 0" by (simp add: flipCoin_def)
  have 2: "\<exists>s0 bs1 s1 s2 bs2 s3. SkipList_new = Some s0 \<and> inserts s0 [(255, 1)] = Some (bs1, s1)
      \<and> insert_sl s1 5 2 = Some (True, s2) \<and> inserts s2 [(7, 3)] = Some (bs2, s3)
      \<and> max_layer_num s2 = 13 \<and> numLayers s1 = 13 \<and> numLayers s2 = 13 \<and> climb 5 13 13 0 = 0
      \<and> height s3 5 = Some (Inr (1 + 0)) \<and> flipCoin 5 0"
    using C4_height_is_promotion_count[OF b] b m c' f' by (metis (no_types, lifting))
  show ?thesis using 1 2 by (rule conjI)
qed

text \<open>
  Claim C8. In every state reached by inserts from a fresh engine the topmost layer
  holds no key: it is the two top sentinels, linked down to the sentinels of the layer
  below, which point back up to them. A successful insert keeps it so: the new key's
  tower ends below the topmost layer, and the layer count afterwards is the larger of
  the count before and the key's height plus one, so a tower that reaches the old top
  layer gets a new empty layer above it. The new top sentinels stand over the old ones:
  following \<open>down\<close> from them once for each layer added arrives at the top sentinels
  of the state before.
\<close>

theorem C8_top_layer_empty:
  assumes "SkipList_new = Some s0" and "inserts s0 kvs = Some (bs, s)"
  shows "top_layer_empty s
         \<and> (\<forall>k v s'. insert_sl s k v = Some (True, s') \<longrightarrow>
              top_layer_empty s'
              \<and> (\<exists>hk. height s' k = Some (Inr hk) \<and> hk < numLayers s'
                       \<and> numLayers s' = max (numLayers s) (hk + 1))
              \<and> descend (store s') (numLayers s' - numLayers s) (top_left s') = Some (top_left s)
              \<and> descend (store s') (numLayers s' - numLayers s) (top_right s') = Some (top_right s))"
proof (intro conjI allI impI)
  obtain A where A: "rel s A" using fresh_rel[OF assms] by blast
  show "top_layer_empty s" by (rule rel_top[OF A])
  fix k v s' assume ins: "insert_sl s k v = Some (True, s')"
  have new: "k \<notin> fst ` set (A ! 0)" using rel_insert_dup[OF A, of k v] ins by auto
  let ?n = "climb k (cap_after s) (length A) 0"
  let ?A' = "tower k v ?n A"
  have A': "rel s' ?A'"
    and dl: "descend (store s') (layer_num s' - layer_num s) (top_left s') = Some (top_left s)"
    and dr: "descend (store s') (layer_num s' - layer_num s) (top_right s') = Some (top_right s)"
    using rel_insert_new[OF A new, of v] ins by auto
  show "top_layer_empty s'" by (rule rel_top[OF A'])
  show "descend (store s') (numLayers s' - numLayers s) (top_left s') = Some (top_left s)"
    using dl by (simp add: numLayers_def)
  show "descend (store s') (numLayers s' - numLayers s) (top_right s') = Some (top_right s)"
    using dr by (simp add: numLayers_def)
  have "height s' k = Some (Inr (Suc ?n))"
    using rel_height[OF A', of k] hgt_tower_new[OF rel_good(1)[OF A] new] by simp
  moreover have "numLayers s' = max (length A) (?n + 2)" "numLayers s = length A"
    using rel_good(2)[OF A'] rel_good(2)[OF A] by (simp_all add: numLayers_def)
  ultimately show "\<exists>hk. height s' k = Some (Inr hk) \<and> hk < numLayers s'
                       \<and> numLayers s' = max (numLayers s) (hk + 1)"
    by (intro exI[of _ "Suc ?n"]) simp
qed

theorem C8_top_layer_empty_witness:
  "\<exists>s0 bs s s'. SkipList_new = Some s0 \<and> inserts s0 [(1, 1)] = Some (bs, s)
     \<and> insert_sl s 3 5 = Some (True, s') \<and> top_layer_empty s \<and> top_layer_empty s'
     \<and> numLayers s = 3 \<and> height s' 3 = Some (Inr 3) \<and> numLayers s' = 4
     \<and> descend (store s') 1 (top_left s') = Some (top_left s)
     \<and> descend (store s') 1 (top_right s') = Some (top_right s)"
proof -
  have "SkipList_new \<bind> (\<lambda>s0. inserts s0 [(1, 1)] \<bind> (\<lambda>(bs, s). insert_sl s 3 5 \<bind>
          (\<lambda>(b, s'). Some (b, numLayers s, height s' 3, numLayers s')))) = Some (True, 3, Some (Inr 3), 4)"
    by code_simp
  then obtain s0 bs s s' where a: "SkipList_new = Some s0" "inserts s0 [(1, 1)] = Some (bs, s)"
      "insert_sl s 3 5 = Some (True, s')"
    and n: "numLayers s = 3" "height s' 3 = Some (Inr 3)" "numLayers s' = 4"
    by (auto simp: bind_eq_Some_conv simp del: inserts.simps)
  from C8_top_layer_empty[OF a(1,2)] a(3) have "top_layer_empty s" "top_layer_empty s'"
      "descend (store s') (numLayers s' - numLayers s) (top_left s') = Some (top_left s)"
      "descend (store s') (numLayers s' - numLayers s) (top_right s') = Some (top_right s)"
    by blast+
  then show ?thesis using a n by auto
qed

text \<open>
  Claim C9. Construction gives an engine with \<open>numLayers() = 2\<close>, \<open>size() = 0\<close> and
  \<open>isEmpty()\<close>; every sequence of inserts on it runs to completion and leaves
  \<open>numLayers() \<ge> 2\<close> (the queries do not change the state).
\<close>

theorem C9_layers_at_least_two:
  "\<exists>s0. SkipList_new = Some s0 \<and> numLayers s0 = 2 \<and> size_sl s0 = 0 \<and> isEmpty s0
         \<and> (\<exists>bs s. inserts s0 kvs = Some (bs, s) \<and> 2 \<le> numLayers s)"
proof -
  obtain s0 where s0: "SkipList_new = Some s0" "rel s0 [[], []]" using rel_new by blast
  have "numLayers s0 = 2" "size_sl s0 = 0" "isEmpty s0"
    using rel_good(2,3)[OF s0(2)] by (simp_all add: numLayers_def size_sl_def isEmpty_def)
  moreover obtain bs s A where r: "inserts s0 kvs = Some (bs, s)" "rel s A"
    using fresh_inserts[OF s0(1)] by blast
  moreover have "2 \<le> numLayers s"
    using rel_good(1,2)[OF r(2)] by (simp add: numLayers_def good_def)
  ultimately show ?thesis using s0(1) by blast
qed

text \<open>
  Claim C10. On an empty (freshly constructed) skip list, \<open>previousKey\<close> of the default
  key 0 returns 0 and signals nothing: every sentinel carries the default key, and the
  absence check compares the queried key with the right sentinel's.
\<close>

theorem C10_previousKey_default_on_empty:
  "SkipList_new \<bind> (\<lambda>s. previousKey s 0) = Some (Inr 0)
   \<and> SkipList_new \<bind> (\<lambda>s. Some (map key (store s), isEmpty s)) = Some ([0, 0, 0, 0], True)"
  by code_simp

theorem C10_previousKey_default_on_empty_witness:
  "SkipList_new \<bind> (\<lambda>s. previousKey s 0) = Some (Inr 0)"
  using C10_previousKey_default_on_empty by (rule conjunct1)

text \<open>
  Claim C1 fails on the code. After \<open>insert(3, 5)\<close> on a fresh engine, 3 is both the
  smallest and the largest key, yet \<open>previousKey(3)\<close> and \<open>nextKey(3)\<close> return the
  sentinels' default key 0 and signal nothing; the same happens at both ends of the
  keys 0..9.
\<close>

theorem C1_extremal_neighbours_return_default:
  "SkipList_new \<bind> (\<lambda>s0. insert_sl s0 3 5 \<bind>
     (\<lambda>(b, s). Some (b, isSmallestKey s 3, isLargestKey s 3, previousKey s 3, nextKey s 3)))
   = Some (True, Some (Inr True), Some (Inr True), Some (Inr 0), Some (Inr 0))
   \<and> SkipList_new \<bind> (\<lambda>s0. inserts s0 (map (\<lambda>i. (of_nat i, of_nat i)) [0..<10]) \<bind>
     (\<lambda>(bs, s). Some (isSmallestKey s 0, previousKey s 0, isLargestKey s 9, nextKey s 9)))
   = Some (Some (Inr True), Some (Inr 0), Some (Inr True), Some (Inr 0))"
  by code_simp

theorem C1_extremal_neighbours_return_default_witness:
  "SkipList_new \<bind> (\<lambda>s0. insert_sl s0 3 5 \<bind>
     (\<lambda>(b, s). Some (b, isSmallestKey s 3, isLargestKey s 3, previousKey s 3, nextKey s 3)))
   = Some (True, Some (Inr True), Some (Inr True), Some (Inr 0), Some (Inr 0))"
  using C1_extremal_neighbours_return_default by (rule conjunct1)

text \<open>
  Claim C5 fails on the code for the default key. Key 0 is never inserted, yet on a
  fresh engine \<open>previousKey(0)\<close> returns 0 and \<open>nextKey(0)\<close> signals the extremal
  failure; after \<open>insert(3, 5)\<close>, \<open>nextKey(0)\<close> returns 3. The other four operations
  signal \<open>KeyNotFound\<close> there.
\<close>

theorem C5_default_key_not_reported_absent:
  "SkipList_new \<bind> (\<lambda>s. Some (previousKey s 0, nextKey s 0))
   = Some (Some (Inr 0), Some (Inl NoSuccessor))
   \<and> SkipList_new \<bind> (\<lambda>s0. insert_sl s0 3 5 \<bind>
     (\<lambda>(b, s). Some (nextKey s 0, previousKey s 0, height s 0, find_sl s 0, isSmallestKey s 0, isLargestKey s 0)))
   = Some (Some (Inr 3), Some (Inl KeyNotFound), Some (Inl KeyNotFound), Some (Inl KeyNotFound),
           Some (Inl KeyNotFound), Some (Inl KeyNotFound))"
  by code_simp

theorem C5_default_key_not_reported_absent_witness:
  "SkipList_new \<bind> (\<lambda>s. Some (previousKey s 0, nextKey s 0))
   = Some (Some (Inr 0), Some (Inl NoSuccessor))"
  using C5_default_key_not_reported_absent by (rule conjunct1)

text \<open>
  The whole-number logarithm of the cap is the ceiling of the real binary logarithm.
\<close>

lemma ceil_log2_is_ceiling_log: "0 < n \<Longrightarrow> int (ceil_log2 n) = \<lceil>log 2 (real n)\<rceil>"
proof (induction n rule: ceil_log2.induct)
  case (1 n)
  show ?case
  proof (cases "n \<le> 1")
    case True
    then have "n = 1" using 1(2) by simp
    then show ?thesis by (simp add: ceil_log2.simps)
  next
    case False
    then have n2: "2 \<le> n" by simp
    have h: "(n - 1) div 2 + 1 = (n + 1) div 2" using n2 by presburger
    have "int (ceil_log2 ((n + 1) div 2)) = \<lceil>log 2 (real ((n + 1) div 2))\<rceil>"
      using 1(1)[OF False] n2 by simp
    moreover have "\<lceil>log 2 (real n)\<rceil> = \<lceil>log 2 (real ((n + 1) div 2))\<rceil> + 1"
      using ceiling_log2_div2[OF n2] unfolding h[symmetric] by simp
    moreover have "ceil_log2 n = Suc (ceil_log2 ((n + 1) div 2))"
      using False by (subst ceil_log2.simps) simp
    ultimately show ?thesis by simp
  qed
qed

end
